theory Spec2Isabelle
  imports Complex_Main
begin

section \<open>McLeod Pitch Method: embedding of \<^verbatim>\<open>src/python/mpm.py\<close>\<close>

text \<open>
  Samples, NSDF values, clarities and frequencies are Python/numpy floats in the source.
  They are modelled as the real numbers: every statement below is about the exact
  arithmetic the floating-point code approximates. Rounding, overflow to infinity and
  NaN produced by arithmetic are outside the model. A NaN that the source uses as a
  "missing" marker in the pitch time series is modelled as \<open>None\<close>.
\<close>

subsection \<open>Errors\<close>

text \<open>The exceptions that the modelled functions can raise.\<close>

datatype py_error = OverflowError | ZeroDivisionError | ValueError | IndexError

subsection \<open>Constants\<close>

text \<open>The literal \<^verbatim>\<open>1e-10\<close> of lines 58 and 131.\<close>

definition eps :: real where
  "eps = 1 / 10 ^ 10"

subsection \<open>The numpy operations used by the NSDF engine\<close>

text \<open>
  numpy is a library, not code of the repository; its functions are modelled by their
  documented meaning, over the reals.

  \<^verbatim>\<open>np.fft.rfft(a, n)\<close>: the input is cropped or zero-padded to \<open>n\<close> points and the
  result holds the first \<open>n // 2 + 1\<close> coefficients
  \<open>A[k] = sum over j < n of a[j] * exp(-2 pi i j k / n)\<close> of its discrete Fourier transform.
\<close>

definition rfft :: "real list \<Rightarrow> nat \<Rightarrow> complex list" where
  "rfft a n =
     map (\<lambda>k. \<Sum>j<n. complex_of_real (if j < length a then a ! j else 0)
                       * cis (- (2 * pi * real j * real k / real n)))
       [0..<n div 2 + 1]"

text \<open>
  \<^verbatim>\<open>np.fft.irfft(a)\<close> with the default output length \<open>n = 2 * (len(a) - 1)\<close>: the inverse
  of \<open>rfft\<close>. The input is taken as the non-negative-frequency half of a Hermitian
  spectrum; the imaginary parts of \<open>a[0]\<close> and of the Nyquist term \<open>a[n/2]\<close> are ignored.
  numpy raises \<open>ValueError\<close> when \<open>n < 1\<close>.
\<close>

definition irfft :: "complex list \<Rightarrow> py_error + real list" where
  "irfft a =
     (let n = 2 * (length a - 1) in
      if n = 0 then Inl ValueError
      else Inr (map (\<lambda>t. (Re (a ! 0) + (- 1) ^ t * Re (a ! (n div 2))
                           + 2 * (\<Sum>k = 1..<n div 2.
                                   Re (a ! k * cis (2 * pi * real k * real t / real n))))
                          / real n)
                  [0..<n]))"

text \<open>\<^verbatim>\<open>np.cumsum\<close>: the running sums, \<open>acc\<close> being the sum of the items already visited.\<close>

fun cumsum_from :: "real \<Rightarrow> real list \<Rightarrow> real list" where
  "cumsum_from acc [] = []"
| "cumsum_from acc (x # xs) = (acc + x) # cumsum_from (acc + x) xs"

definition cumsum :: "real list \<Rightarrow> real list" where
  "cumsum xs = cumsum_from 0 xs"

subsection \<open>NSDF engine (\<^verbatim>\<open>normalized_square_difference\<close>, lines 14-63)\<close>

text \<open>
  Line 42, \<^verbatim>\<open>fft_size = 2 ** int(np.ceil(np.log2(2 * n)))\<close>. For \<open>n = 0\<close>,
  \<open>np.log2(0)\<close> is \<open>-inf\<close> and \<open>int(-inf)\<close> raises \<open>OverflowError\<close>; for \<open>n \<ge> 1\<close> the
  exponent is at least 1.
\<close>

definition fft_size :: "nat \<Rightarrow> py_error + nat" where
  "fft_size n =
     (if n = 0 then Inl OverflowError
      else Inr (2 ^ nat \<lceil>log 2 (real (2 * n))\<rceil>))"

text \<open>Lines 38-46: the autocorrelation by the transform-domain method.\<close>

definition autocorr_fft :: "real list \<Rightarrow> py_error + real list" where
  "autocorr_fft audio_buffer =
     (let n = length audio_buffer in
      case fft_size n of
        Inl e \<Rightarrow> Inl e
      | Inr fsize \<Rightarrow>
          (let fft = rfft audio_buffer fsize in
           case irfft (map (\<lambda>z. z * cnj z) fft) of
             Inl e \<Rightarrow> Inl e
           | Inr r \<Rightarrow> Inr (take n r)))"

text \<open>
  The whole function. \<open>m\<close> is filled for every \<open>tau\<close> of \<^verbatim>\<open>range(n)\<close> from the prefix sums
  of the squared samples, zeros of \<open>m\<close> are replaced by \<open>1e-10\<close>, and the division is
  elementwise.
\<close>

definition normalized_square_difference :: "real list \<Rightarrow> py_error + real list" where
  "normalized_square_difference audio_buffer =
     (let n = length audio_buffer in
      case autocorr_fft audio_buffer of
        Inl e \<Rightarrow> Inl e
      | Inr autocorr \<Rightarrow>
          (let cumsum_sq = 0 # cumsum (map (\<lambda>v. v ^ 2) audio_buffer);
               m = map (\<lambda>tau. cumsum_sq ! (n - tau) + (cumsum_sq ! n - cumsum_sq ! tau)) [0..<n];
               m = map (\<lambda>v. if v = 0 then eps else v) m
           in Inr (map2 (\<lambda>r v. 2 * r / v) autocorr m)))"

text \<open>
  Lines 50-58 on their own: the array \<open>m\<close> the source divides by, after its zeros were
  replaced by \<open>1e-10\<close>.
\<close>

definition energy_m :: "real list \<Rightarrow> real list" where
  "energy_m audio_buffer =
     (let n = length audio_buffer;
          cumsum_sq = 0 # cumsum (map (\<lambda>v. v ^ 2) audio_buffer);
          m = map (\<lambda>tau. cumsum_sq ! (n - tau) + (cumsum_sq ! n - cumsum_sq ! tau)) [0..<n]
      in map (\<lambda>v. if v = 0 then eps else v) m)"

text \<open>
  Lines 48-63 for a given array \<open>autocorr\<close>: the value of line 46 as the transform returned
  it, of the length of the frame. \<open>normalized_square_difference\<close> is this function applied
  to the result of \<open>autocorr_fft\<close> (lemma \<open>nsd_split\<close>).
\<close>

definition nsdf_from_autocorr :: "real list \<Rightarrow> real list \<Rightarrow> real list" where
  "nsdf_from_autocorr autocorr audio_buffer =
     map2 (\<lambda>r v. 2 * r / v) autocorr (energy_m audio_buffer)"

text \<open>
  The quantities of the specification, section 4.1, written as it states them: the direct
  autocorrelation sum, the energy term and the NSDF they give.
\<close>

definition r_direct :: "real list \<Rightarrow> nat \<Rightarrow> real" where
  "r_direct x tau = (\<Sum>j<length x - tau. x ! j * x ! (j + tau))"

definition m_direct :: "real list \<Rightarrow> nat \<Rightarrow> real" where
  "m_direct x tau = (\<Sum>j<length x - tau. (x ! j) ^ 2) + (\<Sum>j = tau..<length x. (x ! j) ^ 2)"

definition nsdf_direct :: "real list \<Rightarrow> real list" where
  "nsdf_direct x =
     map (\<lambda>tau. 2 * r_direct x tau / (if m_direct x tau = 0 then 1 / 10 ^ 10 else m_direct x tau))
       [0..<length x]"

subsection \<open>Peak picking (\<^verbatim>\<open>peak_picking\<close>, lines 66-97)\<close>

text \<open>
  The loop \<^verbatim>\<open>for i in range(1, len(nsdf) - 1)\<close> with the list \<open>peaks\<close> it appends to.
  The loop body reads \<open>nsdf[i - 1]\<close>, \<open>nsdf[i]\<close> and \<open>nsdf[i + 1]\<close>, which are in range
  for every \<open>i\<close> of that range.
\<close>

fun peak_loop :: "real list \<Rightarrow> real \<Rightarrow> nat list \<Rightarrow> (nat \<times> real) list \<Rightarrow> (nat \<times> real) list" where
  "peak_loop nsdf threshold [] peaks = peaks"
| "peak_loop nsdf threshold (i # rest) peaks =
     peak_loop nsdf threshold rest
       (if nsdf ! i > threshold \<and> nsdf ! i > 0 then
          (if nsdf ! i > nsdf ! (i - 1) \<and> nsdf ! i > nsdf ! (i + 1)
           then peaks @ [(i, nsdf ! i)] else peaks)
        else peaks)"

definition peak_picking :: "real list \<Rightarrow> real \<Rightarrow> (nat \<times> real) list" where
  "peak_picking nsdf threshold = peak_loop nsdf threshold [1..<length nsdf - 1] []"

text \<open>The qualification rule of the specification, section 4.2.\<close>

definition qualifies :: "real list \<Rightarrow> real \<Rightarrow> nat \<Rightarrow> bool" where
  "qualifies nsdf threshold i \<longleftrightarrow>
     1 \<le> i \<and> i + 2 \<le> length nsdf \<and>
     nsdf ! i > threshold \<and> nsdf ! i > 0 \<and>
     nsdf ! i > nsdf ! (i - 1) \<and> nsdf ! i > nsdf ! (i + 1)"

subsection \<open>Parabolic interpolation (\<^verbatim>\<open>parabolic_interpolation\<close>, lines 100-136)\<close>

definition parabolic_interpolation :: "real list \<Rightarrow> int \<Rightarrow> real" where
  "parabolic_interpolation nsdf peak_index =
     (if peak_index \<le> 0 \<or> peak_index \<ge> int (length nsdf) - 1 then real_of_int peak_index
      else
        let alpha = nsdf ! nat (peak_index - 1);
            beta = nsdf ! nat peak_index;
            gamma = nsdf ! nat (peak_index + 1);
            denominator = alpha - 2 * beta + gamma
        in if \<bar>denominator\<bar> < eps then real_of_int peak_index
           else real_of_int peak_index + 0.5 * (alpha - gamma) / denominator)"

subsection \<open>Fundamental selection (\<^verbatim>\<open>mpm_pitch_detection\<close>, lines 180-190)\<close>

text \<open>
  Python's \<^verbatim>\<open>max(iterable, key=f)\<close>: the first item is the running maximum, and a later
  item replaces it only when its key is strictly greater. \<open>best\<close> is the running maximum,
  the list holds the items still to be visited.
\<close>

fun py_max_key :: "('a \<Rightarrow> real) \<Rightarrow> 'a \<Rightarrow> 'a list \<Rightarrow> 'a" where
  "py_max_key key best [] = best"
| "py_max_key key best (p # ps) = py_max_key key (if key p > key best then p else best) ps"

text \<open>
  The selection of \<open>best_peak\<close> from a non-empty list \<open>peaks = first # rest\<close>; the source
  reaches these lines only after \<^verbatim>\<open>if not peaks: return None, None\<close>.
\<close>

definition strong_clarity_threshold :: real where
  "strong_clarity_threshold = 0.8"

definition best_peak :: "nat \<times> real \<Rightarrow> (nat \<times> real) list \<Rightarrow> nat \<times> real" where
  "best_peak first rest =
     (let first_peak_clarity = snd first in
      if first_peak_clarity \<ge> strong_clarity_threshold then first
      else py_max_key snd first rest)"

subsection \<open>Frame pitch detector (\<^verbatim>\<open>mpm_pitch_detection\<close>, lines 139-202)\<close>

text \<open>
  The result is the pair the source returns: \<open>(None, None)\<close> or \<open>(frequency, clarity)\<close>.
  An exception of \<open>normalized_square_difference\<close> propagates. \<open>sample_rate\<close> is a number
  (an \<open>int\<close> by the docstring), read as a real.
\<close>

definition mpm_pitch_detection ::
  "real list \<Rightarrow> real \<Rightarrow> real \<Rightarrow> py_error + (real option \<times> real option)" where
  "mpm_pitch_detection audio_buffer sample_rate threshold =
     (case normalized_square_difference audio_buffer of
        Inl e \<Rightarrow> Inl e
      | Inr nsdf \<Rightarrow>
          (case peak_picking nsdf threshold of
             [] \<Rightarrow> Inr (None, None)
           | first # rest \<Rightarrow>
               (let (peak_index, clarity) = best_peak first rest;
                    refined_lag = parabolic_interpolation nsdf (int peak_index)
                in if refined_lag > 0
                   then Inr (Some (sample_rate / refined_lag), Some clarity)
                   else Inr (None, None))))"

subsection \<open>Frame tracker (\<^verbatim>\<open>detect_pitch_mpm\<close>, lines 205-264)\<close>

text \<open>
  The slice \<^verbatim>\<open>xs[start:stop]\<close> of Python and numpy: a negative bound counts from the end,
  and both bounds are clamped to \<open>[0, len(xs)]\<close>.
\<close>

definition py_slice :: "'a list \<Rightarrow> int \<Rightarrow> int \<Rightarrow> 'a list" where
  "py_slice xs start stop =
     (let n = int (length xs);
          s = (if start < 0 then max (start + n) 0 else min start n);
          e = (if stop < 0 then max (stop + n) 0 else min stop n)
      in take (nat (e - s)) (drop (nat s) xs))"

text \<open>
  The loop \<^verbatim>\<open>for i in range(num_frames)\<close> over the three preallocated arrays
  (\<open>times_arr\<close> is the source's \<open>times\<close>). A missing
  entry (\<open>np.nan\<close>) of \<open>pitches\<close> and \<open>clarities\<close> is \<open>None\<close>. \<^verbatim>\<open>start / sample_rate\<close>
  divides Python numbers and raises \<open>ZeroDivisionError\<close> for a zero sample rate; an
  exception of \<open>mpm_pitch_detection\<close> propagates.
\<close>

fun frames_loop ::
  "real list \<Rightarrow> real \<Rightarrow> int \<Rightarrow> int \<Rightarrow> real \<Rightarrow> real \<Rightarrow> real \<Rightarrow> nat list
   \<Rightarrow> real option list \<times> real option list \<times> real list
   \<Rightarrow> py_error + (real option list \<times> real option list \<times> real list)" where
  "frames_loop audio sample_rate frame_length hop_length threshold fmin fmax [] st = Inr st"
| "frames_loop audio sample_rate frame_length hop_length threshold fmin fmax (i # rest)
     (pitches, clarities, times_arr) =
     (let start = int i * hop_length;
          stop = start + frame_length;
          frame = py_slice audio start stop
      in if sample_rate = 0 then Inl ZeroDivisionError
         else
           let times_arr = times_arr[i := real_of_int start / sample_rate] in
           case mpm_pitch_detection frame sample_rate threshold of
             Inl e \<Rightarrow> Inl e
           | Inr (freq, clarity) \<Rightarrow>
               (case freq of
                  Some f \<Rightarrow>
                    if fmin \<le> f \<and> f \<le> fmax
                    then frames_loop audio sample_rate frame_length hop_length threshold fmin fmax
                           rest (pitches[i := Some f], clarities[i := clarity], times_arr)
                    else frames_loop audio sample_rate frame_length hop_length threshold fmin fmax
                           rest (pitches, clarities, times_arr)
                | None \<Rightarrow>
                    frames_loop audio sample_rate frame_length hop_length threshold fmin fmax
                      rest (pitches, clarities, times_arr)))"

text \<open>
  Line 240 is Python's floor division, which raises \<open>ZeroDivisionError\<close> for a zero hop
  length; \<open>div\<close> on \<open>int\<close> is the same floor division otherwise. \<^verbatim>\<open>np.full\<close> and
  \<^verbatim>\<open>np.zeros\<close> raise \<open>ValueError\<close> ("negative dimensions are not allowed") for a negative
  length.
\<close>

definition detect_pitch_mpm ::
  "real list \<Rightarrow> real \<Rightarrow> int \<Rightarrow> int \<Rightarrow> real \<Rightarrow> real \<Rightarrow> real
   \<Rightarrow> py_error + (real option list \<times> real option list \<times> real list)" where
  "detect_pitch_mpm audio sample_rate frame_length hop_length threshold fmin fmax =
     (if hop_length = 0 then Inl ZeroDivisionError
      else
        let num_frames = 1 + (int (length audio) - frame_length) div hop_length in
        if num_frames < 0 then Inl ValueError
        else frames_loop audio sample_rate frame_length hop_length threshold fmin fmax
               [0..<nat num_frames]
               (replicate (nat num_frames) None, replicate (nat num_frames) None,
                replicate (nat num_frames) 0))"

subsection \<open>Dominant pitch aggregator (\<^verbatim>\<open>get_dominant_pitch_mpm\<close>, lines 267-311)\<close>

text \<open>
  \<^verbatim>\<open>np.argsort\<close>: the indices that sort the array, here by a stable insertion sort of
  the (value, index) pairs. numpy's default sort need not be stable; the order it gives
  to equal values is not specified.
\<close>

definition argsort :: "real list \<Rightarrow> nat list" where
  "argsort xs = map snd (sort_key fst (zip xs [0..<length xs]))"

text \<open>
  \<^verbatim>\<open>np.searchsorted(a, v)\<close> (side \<open>left\<close>): numpy's binary search, which for a sorted
  array finds the first index \<open>i\<close> with \<open>v \<le> a[i]\<close>, or \<open>len(a)\<close>.
\<close>

function binsearch_left :: "real list \<Rightarrow> real \<Rightarrow> nat \<Rightarrow> nat \<Rightarrow> nat" where
  "binsearch_left a v lo hi =
     (if lo < hi then
        (let mid = lo + (hi - lo) div 2 in
         if a ! mid < v then binsearch_left a v (mid + 1) hi
         else binsearch_left a v lo mid)
      else lo)"
  by pat_completeness auto
termination
  by (relation "measure (\<lambda>(a, v, lo, hi). hi - lo)") auto

declare binsearch_left.simps [simp del]

definition searchsorted :: "real list \<Rightarrow> real \<Rightarrow> nat" where
  "searchsorted a v = binsearch_left a v 0 (length a)"

text \<open>\<^verbatim>\<open>np.median\<close> of a non-empty array: the middle value, or the mean of the two middle values.\<close>

definition median :: "real list \<Rightarrow> real" where
  "median xs =
     (let s = sort xs; n = length xs in
      if odd n then s ! (n div 2) else (s ! (n div 2 - 1) + s ! (n div 2)) / 2)"

text \<open>
  Lines 288-292. An entry that is \<open>np.nan\<close> is \<open>None\<close>, and a comparison with it is false.
  The in-place \<^verbatim>\<open>valid_mask &= ...\<close> broadcasts a clarity array of length 1 and raises
  \<open>ValueError\<close> for any other length that differs from that of \<open>pitches\<close>.
\<close>

definition valid_mask ::
  "real option list \<Rightarrow> real option list option \<Rightarrow> real \<Rightarrow> py_error + bool list" where
  "valid_mask pitches clarities min_clarity =
     (let vmask = map (\<lambda>p. p \<noteq> None) pitches in
      case clarities of
        None \<Rightarrow> Inr vmask
      | Some cs \<Rightarrow>
          (let cmask = map (\<lambda>c. case c of None \<Rightarrow> False | Some v \<Rightarrow> v \<ge> min_clarity) cs in
           if length cs = length pitches then Inr (map2 (\<and>) vmask cmask)
           else if length cs = 1 then Inr (map (\<lambda>b. b \<and> hd cmask) vmask)
           else Inl ValueError))"

text \<open>
  Boolean-mask indexing \<^verbatim>\<open>xs[valid_mask]\<close> for a mask \<open>vmask\<close> of the length of \<open>xs\<close>. The masks built
  above are false wherever the entry is missing, so the selected entries are numbers.
\<close>

definition bool_index :: "real option list \<Rightarrow> bool list \<Rightarrow> real list" where
  "bool_index xs vmask = List.map_filter (\<lambda>(x, b). if b then x else None) (zip xs vmask)"

text \<open>
  The whole function. \<^verbatim>\<open>clarities[valid_mask]\<close> raises \<open>IndexError\<close> when the mask and
  the array differ in length, and so does \<^verbatim>\<open>sorted_pitches[median_idx]\<close> for an index
  out of range.
\<close>

definition get_dominant_pitch_mpm ::
  "real option list \<Rightarrow> real option list option \<Rightarrow> real \<Rightarrow> py_error + real option" where
  "get_dominant_pitch_mpm pitches clarities min_clarity =
     (case valid_mask pitches clarities min_clarity of
        Inl e \<Rightarrow> Inl e
      | Inr vmask \<Rightarrow>
          (let valid_pitches = bool_index pitches vmask in
           if length valid_pitches = 0 then Inr None
           else
             case clarities of
               Some cs \<Rightarrow>
                 if length cs \<noteq> length vmask then Inl IndexError
                 else
                   (let valid_clarities = bool_index cs vmask;
                        sort_idx = argsort valid_pitches;
                        sorted_pitches = map (\<lambda>i. valid_pitches ! i) sort_idx;
                        sorted_weights = map (\<lambda>i. valid_clarities ! i) sort_idx;
                        csum = cumsum sorted_weights;
                        median_idx = searchsorted csum (last csum / 2)
                    in if median_idx < length sorted_pitches
                       then Inr (Some (sorted_pitches ! median_idx))
                       else Inl IndexError)
             | None \<Rightarrow> Inr (Some (median valid_pitches))))"

text \<open>
  The notions of the specification, section 4.7, written as it states them: the valid
  subset with and without clarities, and the clarity-weighted median (sort the valid
  pairs by frequency, take the first position whose cumulative weight is at least half
  the total weight).
\<close>

definition valid_pairs :: "real option list \<Rightarrow> real option list \<Rightarrow> real \<Rightarrow> (real \<times> real) list" where
  "valid_pairs pitches cs min_clarity =
     List.map_filter
       (\<lambda>(p, c). case p of None \<Rightarrow> None
                 | Some f \<Rightarrow> (case c of None \<Rightarrow> None
                              | Some w \<Rightarrow> if w \<ge> min_clarity then Some (f, w) else None))
       (zip pitches cs)"

definition valid_freqs :: "real option list \<Rightarrow> real list" where
  "valid_freqs pitches = List.map_filter (\<lambda>p. p) pitches"

definition weighted_median :: "(real \<times> real) list \<Rightarrow> real" where
  "weighted_median pairs =
     (let sorted_pairs = sort_key fst pairs;
          total = sum_list (map snd sorted_pairs);
          k = length (takeWhile (\<lambda>j. sum_list (take (Suc j) (map snd sorted_pairs)) < total / 2)
                        [0..<length sorted_pairs])
      in fst (sorted_pairs ! k))"

subsection \<open>Auxiliary notions for the proofs about the NSDF engine\<close>

text \<open>
  The discrete Fourier coefficient of a sequence given as a function, and the zero-padded
  reading of a list: \<open>rfft x N\<close> is the list of \<open>dft (padded x) N k\<close> for \<open>k\<close> up to \<open>N div 2\<close>.
\<close>

definition dft :: "(nat \<Rightarrow> real) \<Rightarrow> nat \<Rightarrow> nat \<Rightarrow> complex" where
  "dft a N k = (\<Sum>j<N. complex_of_real (a j) * cis (- (2 * pi * real j * real k / real N)))"

definition padded :: "real list \<Rightarrow> nat \<Rightarrow> real" where
  "padded x j = (if j < length x then x ! j else 0)"

section \<open>Properties\<close>

subsection \<open>The transform-domain autocorrelation is the direct sum\<close>

lemma cis_int_period: "cis (x + 2 * pi * real_of_int m) = cis x"
  by (simp add: cis_mult [symmetric])

lemma root_unity_sum:
  fixes d :: int
  assumes N: "0 < N"
  shows "(\<Sum>k<N. cis (2 * pi * real k * real_of_int d / real N))
           = (if int N dvd d then of_nat N else 0)"
proof -
  let ?w = "cis (2 * pi * real_of_int d / real N)"
  have pw: "cis (2 * pi * real k * real_of_int d / real N) = ?w ^ k" for k
    by (simp add: DeMoivre algebra_simps)
  have "?w ^ N = cis (2 * pi * real_of_int d)"
    using N by (simp add: DeMoivre)
  then have wN: "?w ^ N = 1" by simp
  show ?thesis
  proof (cases "int N dvd d")
    case True
    then obtain m where m: "d = int N * m" ..
    have "2 * pi * real_of_int d / real N = 2 * pi * real_of_int m"
      using N by (simp add: m)
    then have "?w = 1" by simp
    then show ?thesis using True by (simp add: pw)
  next
    case False
    have "?w \<noteq> 1"
    proof
      assume "?w = 1"
      then have "cos (2 * pi * real_of_int d / real N) = 1"
        by (simp add: complex_eq_iff)
      then obtain m :: int where "2 * pi * real_of_int d / real N = real_of_int m * 2 * pi"
        using cos_one_2pi_int by blast
      then have "real_of_int d = real_of_int (m * int N)"
        using N by (simp add: field_simps)
      then have "d = m * int N" by (simp only: of_int_eq_iff)
      with False show False by simp
    qed
    then have "(\<Sum>k<N. ?w ^ k) = (?w ^ N - 1) / (?w - 1)" by (rule geometric_sum)
    then show ?thesis using wN False by (simp add: pw)
  qed
qed


lemma cnj_dft:
  "cnj (dft a N k) = (\<Sum>l<N. complex_of_real (a l) * cis (2 * pi * real l * real k / real N))"
  by (simp add: dft_def cis_cnj)

lemma spectrum_term:
  "complex_of_real (a j) * cis (- (2 * pi * real j * real k / real N))
     * (complex_of_real (a l) * cis (2 * pi * real l * real k / real N))
     * cis (2 * pi * real k * real t / real N)
   = complex_of_real (a j * a l)
     * cis (2 * pi * real k * real_of_int (int l + int t - int j) / real N)"
proof -
  have "- (2 * pi * real j * real k / real N) + 2 * pi * real l * real k / real N
          + 2 * pi * real k * real t / real N
        = (- (2 * pi * real j * real k) + 2 * pi * real l * real k + 2 * pi * real k * real t) / real N"
    by (simp add: add_divide_distrib diff_divide_distrib)
  also have "- (2 * pi * real j * real k) + 2 * pi * real l * real k + 2 * pi * real k * real t
        = 2 * pi * real k * real_of_int (int l + int t - int j)"
    by (simp add: algebra_simps)
  finally have "- (2 * pi * real j * real k / real N) + 2 * pi * real l * real k / real N
          + 2 * pi * real k * real t / real N
        = 2 * pi * real k * real_of_int (int l + int t - int j) / real N" .
  then have "cis (- (2 * pi * real j * real k / real N)) * cis (2 * pi * real l * real k / real N)
          * cis (2 * pi * real k * real t / real N)
        = cis (2 * pi * real k * real_of_int (int l + int t - int j) / real N)"
    by (simp only: cis_mult)
  then show ?thesis
    by (simp add: mult_ac)
qed

lemma power_spectrum_sum:
  assumes N: "0 < N"
  shows "(\<Sum>k<N. dft a N k * cnj (dft a N k) * cis (2 * pi * real k * real t / real N))
         = (\<Sum>j<N. \<Sum>l<N. complex_of_real (a j * a l)
               * (if int N dvd int l + int t - int j then of_nat N else 0))"
proof -
  have "(\<Sum>k<N. dft a N k * cnj (dft a N k) * cis (2 * pi * real k * real t / real N))
        = (\<Sum>k<N. \<Sum>j<N. \<Sum>l<N. complex_of_real (a j * a l)
             * cis (2 * pi * real k * real_of_int (int l + int t - int j) / real N))"
    unfolding cnj_dft unfolding dft_def
    by (simp only: sum_product) (simp only: sum_distrib_right spectrum_term)
  also have "\<dots> = (\<Sum>j<N. \<Sum>k<N. \<Sum>l<N. complex_of_real (a j * a l)
             * cis (2 * pi * real k * real_of_int (int l + int t - int j) / real N))"
    by (rule sum.swap)
  also have "\<dots> = (\<Sum>j<N. \<Sum>l<N. \<Sum>k<N. complex_of_real (a j * a l)
             * cis (2 * pi * real k * real_of_int (int l + int t - int j) / real N))"
    by (rule sum.cong [OF refl]) (rule sum.swap)
  also have "\<dots> = (\<Sum>j<N. \<Sum>l<N. complex_of_real (a j * a l)
               * (if int N dvd int l + int t - int j then of_nat N else 0))"
    by (simp only: sum_distrib_left [symmetric] root_unity_sum [OF N])
  finally show ?thesis .
qed


lemma dvd_small_int:
  fixes d :: int
  assumes "int N dvd d" "\<bar>d\<bar> < int N"
  shows "d = 0"
  using assms dvd_imp_le_int [of d "int N"] by fastforce

lemma lag_pairs:
  assumes supp: "\<And>j. n \<le> j \<Longrightarrow> a j = 0" and N: "2 * n \<le> N" and t: "t < n"
  shows "(\<Sum>j<N. \<Sum>l<N. complex_of_real (a j * a l)
               * (if int N dvd int l + int t - int j then of_nat N else 0))
         = of_nat N * complex_of_real (\<Sum>l<n - t. a l * a (l + t))"
proof -
  let ?F = "\<lambda>j l. complex_of_real (a j * a l)
               * (if int N dvd int l + int t - int j then of_nat N else 0)"
  have nN: "n \<le> N" using N by simp
  have inner: "(\<Sum>l<N. ?F j l) = (\<Sum>l<n. ?F j l)" for j
    by (rule sum.mono_neutral_right) (use nN supp in auto)
  have "(\<Sum>j<N. \<Sum>l<N. ?F j l) = (\<Sum>j<N. \<Sum>l<n. ?F j l)"
    by (simp only: inner)
  also have "\<dots> = (\<Sum>j<n. \<Sum>l<n. ?F j l)"
    by (rule sum.mono_neutral_right) (use nN supp in auto)
  also have "\<dots> = (\<Sum>j<n. \<Sum>l<n. if j = l + t then of_nat N * complex_of_real (a l * a (l + t)) else 0)"
  proof (intro sum.cong refl)
    fix j l assume "j \<in> {..<n}" "l \<in> {..<n}"
    then have jl: "j < n" "l < n" by simp_all
    have "int N dvd int l + int t - int j \<longleftrightarrow> j = l + t"
    proof
      assume d: "int N dvd int l + int t - int j"
      have "\<bar>int l + int t - int j\<bar> < int N" using jl t N by linarith
      with d have "int l + int t - int j = 0" by (rule dvd_small_int)
      then show "j = l + t" by linarith
    next
      assume "j = l + t"
      then show "int N dvd int l + int t - int j" by simp
    qed
    then show "?F j l = (if j = l + t then of_nat N * complex_of_real (a l * a (l + t)) else 0)"
      by (simp add: mult_ac)
  qed
  also have "\<dots> = (\<Sum>l<n. \<Sum>j<n. if j = l + t then of_nat N * complex_of_real (a l * a (l + t)) else 0)"
    by (rule sum.swap)
  also have "\<dots> = (\<Sum>l<n. if l + t < n then of_nat N * complex_of_real (a l * a (l + t)) else 0)"
    by (rule sum.cong [OF refl]) simp
  also have "\<dots> = (\<Sum>l<n - t. of_nat N * complex_of_real (a l * a (l + t)))"
  proof -
    have "(\<Sum>l<n - t. of_nat N * complex_of_real (a l * a (l + t)))
          = (\<Sum>l<n - t. if l + t < n then of_nat N * complex_of_real (a l * a (l + t)) else 0)"
      by (rule sum.cong [OF refl]) auto
    also have "\<dots> = (\<Sum>l<n. if l + t < n then of_nat N * complex_of_real (a l * a (l + t)) else 0)"
      by (rule sum.mono_neutral_left) auto
    finally show ?thesis by simp
  qed
  also have "\<dots> = of_nat N * complex_of_real (\<Sum>l<n - t. a l * a (l + t))"
    by (simp add: sum_distrib_left)
  finally show ?thesis .
qed


lemma dft_reflect:
  assumes k: "k < N"
  shows "dft a N (N - k) = cnj (dft a N k)"
proof -
  have "cis (- (2 * pi * real j * real (N - k) / real N))
        = cis (2 * pi * real j * real k / real N)" for j
  proof -
    have N: "0 < N" using k by simp
    have "- (2 * pi * real j * real (N - k) / real N)
          = 2 * pi * real j * real k / real N + 2 * pi * real_of_int (- int j)"
      using k N by (simp add: field_simps)
    then show ?thesis by (simp only: cis_int_period)
  qed
  then show ?thesis by (simp add: cnj_dft) (simp add: dft_def)
qed

lemma fold_symmetric_sum:
  fixes G :: "nat \<Rightarrow> real"
  assumes M: "0 < M" and sym: "\<And>k. 0 < k \<Longrightarrow> k < 2 * M \<Longrightarrow> G (2 * M - k) = G k"
  shows "(\<Sum>k<2 * M. G k) = G 0 + G M + 2 * (\<Sum>k = 1..<M. G k)"
proof -
  have "(\<Sum>k<2 * M. G k) = (\<Sum>k = 0..<M. G k) + (\<Sum>k = M..<2 * M. G k)"
    by (simp add: lessThan_atLeast0 sum.atLeastLessThan_concat)
  also have "(\<Sum>k = 0..<M. G k) = G 0 + (\<Sum>k = 1..<M. G k)"
    using M by (simp add: sum.atLeast_Suc_lessThan)
  also have "(\<Sum>k = M..<2 * M. G k) = G M + (\<Sum>k = Suc M..<2 * M. G k)"
    using M by (simp add: sum.atLeast_Suc_lessThan)
  also have "(\<Sum>k = Suc M..<2 * M. G k) = (\<Sum>k = 1..<M. G (2 * M - k))"
    by (rule sum.reindex_bij_witness [of _ "\<lambda>k. 2 * M - k" "\<lambda>k. 2 * M - k"]) auto
  also have "\<dots> = (\<Sum>k = 1..<M. G k)"
    by (rule sum.cong [OF refl]) (simp add: sym)
  finally show ?thesis by simp
qed


lemma cis_half_turns: "cis (pi * real t) = (- 1) ^ t"
proof -
  have "cis (pi * real t) = cis (real t * pi)" by (simp add: mult.commute)
  also have "\<dots> = cis pi ^ t" by (simp only: DeMoivre)
  finally show ?thesis by simp
qed

lemma irfft_element:
  assumes M: "0 < M" and supp: "\<And>j. n \<le> j \<Longrightarrow> a j = 0" and n: "n \<le> M" and t: "t < n"
  defines "P \<equiv> \<lambda>k. dft a (2 * M) k * cnj (dft a (2 * M) k)"
  shows "(Re (P 0) + (- 1) ^ t * Re (P M)
            + 2 * (\<Sum>k = 1..<M. Re (P k * cis (2 * pi * real k * real t / real (2 * M)))))
           / real (2 * M)
         = (\<Sum>l<n - t. a l * a (l + t))"
proof -
  define G where "G k = Re (P k * cis (2 * pi * real k * real t / real (2 * M)))" for k
  have P_real: "Im (P k) = 0" for k
    by (simp add: P_def complex_mult_cnj)
  have sym: "G (2 * M - k) = G k" if "0 < k" "k < 2 * M" for k
  proof -
    have "P (2 * M - k) = P k"
      using that by (simp add: P_def dft_reflect mult.commute)
    moreover have "cis (2 * pi * real (2 * M - k) * real t / real (2 * M))
                   = cnj (cis (2 * pi * real k * real t / real (2 * M)))"
    proof -
      have "2 * pi * real (2 * M - k) * real t / real (2 * M)
            = - (2 * pi * real k * real t / real (2 * M)) + 2 * pi * real_of_int (int t)"
        using that M by (simp add: field_simps)
      then show ?thesis by (simp only: cis_int_period cis_cnj)
    qed
    ultimately show ?thesis
      by (simp add: G_def P_real)
  qed
  have G0: "G 0 = Re (P 0)" by (simp add: G_def)
  have "2 * pi * real M * real t / real (2 * M) = pi * real t"
    using M by simp
  then have GM: "G M = (- 1) ^ t * Re (P M)"
    by (simp add: G_def cis_half_turns P_real)
  have "Re (P 0) + (- 1) ^ t * Re (P M) + 2 * (\<Sum>k = 1..<M. G k) = (\<Sum>k<2 * M. G k)"
    using fold_symmetric_sum [of M G, OF M sym] by (simp add: G0 GM)
  also have "\<dots> = Re (\<Sum>k<2 * M. P k * cis (2 * pi * real k * real t / real (2 * M)))"
    by (simp add: G_def)
  also have "(\<Sum>k<2 * M. P k * cis (2 * pi * real k * real t / real (2 * M)))
             = of_nat (2 * M) * complex_of_real (\<Sum>l<n - t. a l * a (l + t))"
  proof -
    have "(\<Sum>k<2 * M. P k * cis (2 * pi * real k * real t / real (2 * M)))
          = (\<Sum>j<2 * M. \<Sum>l<2 * M. complex_of_real (a j * a l)
               * (if int (2 * M) dvd int l + int t - int j then of_nat (2 * M) else 0))"
      unfolding P_def by (rule power_spectrum_sum) (use M in simp)
    also have "\<dots> = of_nat (2 * M) * complex_of_real (\<Sum>l<n - t. a l * a (l + t))"
      by (rule lag_pairs [OF supp]) (use n t in simp_all)
    finally show ?thesis .
  qed
  finally have "Re (P 0) + (- 1) ^ t * Re (P M) + 2 * (\<Sum>k = 1..<M. G k)
                = real (2 * M) * (\<Sum>l<n - t. a l * a (l + t))"
    by simp
  then show ?thesis using M by (simp add: G_def)
qed


lemma rfft_dft: "rfft x N = map (dft (padded x) N) [0..<N div 2 + 1]"
  by (simp add: rfft_def dft_def padded_def)

lemma fft_size_ok:
  assumes n: "0 < n"
  shows "\<exists>M. fft_size n = Inr (2 * M) \<and> n \<le> M \<and> 0 < M"
proof -
  let ?c = "\<lceil>log 2 (real (2 * n))\<rceil>"
  have "log 2 2 \<le> log 2 (real (2 * n))"
    using n by (subst log_le_cancel_iff) simp_all
  then have "1 \<le> log 2 (real (2 * n))" by simp
  then have c1: "1 \<le> ?c" by linarith
  then obtain e where e: "nat ?c = Suc e"
    by (metis Suc_le_D nat_1 nat_mono)
  have "real (2 * n) = 2 powr log 2 (real (2 * n))"
    using n by simp
  also have "\<dots> \<le> 2 powr real_of_int ?c"
    by (rule powr_mono) simp_all
  also have "\<dots> = 2 powr real (nat ?c)"
    using c1 by simp
  also have "\<dots> = 2 ^ nat ?c"
    by (simp add: powr_realpow)
  finally have "real (2 * n) \<le> real (2 ^ nat ?c)" by simp
  then have "2 * n \<le> 2 ^ nat ?c" by (simp only: of_nat_le_iff)
  then have "2 * n \<le> 2 ^ Suc e" unfolding e .
  then have "n \<le> 2 ^ e" by simp
  moreover have "fft_size n = Inr (2 ^ Suc e)"
    using n unfolding fft_size_def e by simp
  then have "fft_size n = Inr (2 * 2 ^ e)" by simp
  ultimately show ?thesis by auto
qed

lemma r_direct_padded:
  "r_direct x t = (\<Sum>l<length x - t. padded x l * padded x (l + t))"
  unfolding r_direct_def
  by (rule sum.cong [OF refl]) (auto simp: padded_def)

lemma autocorr_fft_direct:
  assumes "x \<noteq> []"
  shows "autocorr_fft x = Inr (map (r_direct x) [0..<length x])"
proof -
  let ?n = "length x"
  from assms have "0 < ?n" by simp
  then obtain M where fs: "fft_size ?n = Inr (2 * M)" and nM: "?n \<le> M" and M: "0 < M"
    using fft_size_ok by blast
  define P where "P k = dft (padded x) (2 * M) k * cnj (dft (padded x) (2 * M) k)" for k
  define Y where "Y = map (\<lambda>z. z * cnj z) (rfft x (2 * M))"
  have Y: "Y = map P [0..<M + 1]"
    by (simp add: Y_def rfft_dft P_def comp_def)
  have lenY: "length Y = M + 1" by (simp add: Y)
  have Ynth: "Y ! k = P k" if "k \<le> M" for k
    using that unfolding Y by (subst nth_map_upt) simp_all
  let ?f = "\<lambda>t. (Re (Y ! 0) + (- 1) ^ t * Re (Y ! (2 * M div 2))
                + 2 * (\<Sum>k = 1..<2 * M div 2. Re (Y ! k * cis (2 * pi * real k * real t / real (2 * M)))))
               / real (2 * M)"
  have ir: "irfft Y = Inr (map ?f [0..<2 * M])"
    using M by (simp add: irfft_def lenY Let_def)
  have el: "?f t = r_direct x t" if t: "t < ?n" for t
  proof -
    have "(\<Sum>k = 1..<M. Re (Y ! k * cis (2 * pi * real k * real t / real (2 * M))))
          = (\<Sum>k = 1..<M. Re (P k * cis (2 * pi * real k * real t / real (2 * M))))"
      by (rule sum.cong [OF refl]) (simp add: Ynth)
    then have "?f t = (Re (P 0) + (- 1) ^ t * Re (P M)
            + 2 * (\<Sum>k = 1..<M. Re (P k * cis (2 * pi * real k * real t / real (2 * M)))))
           / real (2 * M)"
      by (simp add: Ynth)
    also have "\<dots> = (\<Sum>l<?n - t. padded x l * padded x (l + t))"
      unfolding P_def
      by (rule irfft_element [OF M _ nM t]) (simp add: padded_def)
    finally show ?thesis by (simp add: r_direct_padded)
  qed
  have "autocorr_fft x = Inr (take ?n (map ?f [0..<2 * M]))"
    unfolding autocorr_fft_def Let_def fs
    using ir by (simp add: Y_def)
  also have "take ?n (map ?f [0..<2 * M]) = map ?f [0..<?n]"
    using nM by (simp add: take_map)
  also have "\<dots> = map (r_direct x) [0..<?n]"
  proof (rule map_cong [OF refl])
    fix t assume "t \<in> set [0..<?n]"
    then have "t < ?n" by simp
    then show "?f t = r_direct x t" by (rule el)
  qed
  finally show ?thesis .
qed


lemma cumsum_from_length: "length (cumsum_from acc xs) = length xs"
  by (induction xs arbitrary: acc) simp_all

lemma cumsum_from_nth:
  "k < length xs \<Longrightarrow> cumsum_from acc xs ! k = acc + (\<Sum>j<Suc k. xs ! j)"
proof (induction xs arbitrary: acc k)
  case Nil
  then show ?case by simp
next
  case (Cons x xs)
  show ?case
  proof (cases k)
    case 0
    then show ?thesis by simp
  next
    case (Suc k')
    with Cons.prems have "k' < length xs" by simp
    then have "cumsum_from (acc + x) xs ! k' = acc + x + (\<Sum>j<Suc k'. xs ! j)"
      by (rule Cons.IH)
    moreover have "(\<Sum>j<Suc (Suc k'). (x # xs) ! j) = x + (\<Sum>j<Suc k'. xs ! j)"
      by (subst sum.lessThan_Suc_shift) simp
    ultimately show ?thesis using Suc by simp
  qed
qed

lemma cumsum_sq_nth:
  assumes "k \<le> length x"
  shows "(0 # cumsum (map (\<lambda>v. v ^ 2) x)) ! k = (\<Sum>j<k. (x ! j) ^ 2)"
proof (cases k)
  case 0
  then show ?thesis by simp
next
  case (Suc k')
  with assms have k': "k' < length x" by simp
  then have "cumsum (map (\<lambda>v. v ^ 2) x) ! k' = (\<Sum>j<Suc k'. map (\<lambda>v. v ^ 2) x ! j)"
    by (simp add: cumsum_def cumsum_from_nth)
  also have "\<dots> = (\<Sum>j<Suc k'. (x ! j) ^ 2)"
    by (rule sum.cong [OF refl]) (use k' in simp)
  finally show ?thesis using Suc by simp
qed

lemma m_from_prefix_sums:
  assumes "tau < length x"
  shows "(0 # cumsum (map (\<lambda>v. v ^ 2) x)) ! (length x - tau)
           + ((0 # cumsum (map (\<lambda>v. v ^ 2) x)) ! length x - (0 # cumsum (map (\<lambda>v. v ^ 2) x)) ! tau)
         = m_direct x tau"
proof -
  let ?cs = "0 # cumsum (map (\<lambda>v. v ^ 2) x)"
  have a: "?cs ! (length x - tau) = (\<Sum>j<length x - tau. (x ! j) ^ 2)"
    by (rule cumsum_sq_nth) simp
  have b: "?cs ! length x = (\<Sum>j<length x. (x ! j) ^ 2)"
    by (rule cumsum_sq_nth) simp
  have c: "?cs ! tau = (\<Sum>j<tau. (x ! j) ^ 2)"
    by (rule cumsum_sq_nth) (use assms in simp)
  have "(\<Sum>j<length x. (x ! j) ^ 2) = (\<Sum>j<tau. (x ! j) ^ 2) + (\<Sum>j = tau..<length x. (x ! j) ^ 2)"
    using assms by (simp add: lessThan_atLeast0 sum.atLeastLessThan_concat)
  then show ?thesis
    unfolding a b c m_direct_def by simp
qed

lemma map2_same: "map2 f (map g xs) (map h xs) = map (\<lambda>i. f (g i) (h i)) xs"
  by (induction xs) simp_all

lemma nsd_direct:
  assumes "x \<noteq> []"
  shows "normalized_square_difference x = Inr (nsdf_direct x)"
proof -
  let ?cs = "0 # cumsum (map (\<lambda>v. v ^ 2) x)"
  let ?n = "length x"
  have m: "map (\<lambda>tau. ?cs ! (?n - tau) + (?cs ! ?n - ?cs ! tau)) [0..<?n] = map (m_direct x) [0..<?n]"
  proof (rule map_cong [OF refl])
    fix tau assume "tau \<in> set [0..<?n]"
    then have "tau < ?n" by simp
    then show "?cs ! (?n - tau) + (?cs ! ?n - ?cs ! tau) = m_direct x tau"
      by (rule m_from_prefix_sums)
  qed
  have "normalized_square_difference x
        = Inr (map2 (\<lambda>r v. 2 * r / v) (map (r_direct x) [0..<?n])
                 (map (\<lambda>v. if v = 0 then eps else v) (map (m_direct x) [0..<?n])))"
    unfolding normalized_square_difference_def Let_def autocorr_fft_direct [OF assms] m
    by simp
  also have "map (\<lambda>v. if v = 0 then eps else v) (map (m_direct x) [0..<?n])
             = map (\<lambda>tau. if m_direct x tau = 0 then 1 / 10 ^ 10 else m_direct x tau) [0..<?n]"
    by (simp add: eps_def comp_def)
  finally show ?thesis
    unfolding nsdf_direct_def map2_same .
qed

lemma nsd_empty: "normalized_square_difference [] = Inl OverflowError"
  by (simp add: normalized_square_difference_def autocorr_fft_def fft_size_def)

lemma nsd_length:
  assumes "normalized_square_difference x = Inr nsdf"
  shows "length nsdf = length x" and "x \<noteq> []"
proof -
  show ne: "x \<noteq> []" using assms nsd_empty by auto
  from nsd_direct [OF ne] assms have "nsdf = nsdf_direct x" by simp
  then show "length nsdf = length x" by (simp add: nsdf_direct_def)
qed

lemma nsd_split:
  "normalized_square_difference x =
     (case autocorr_fft x of Inl e \<Rightarrow> Inl e | Inr a \<Rightarrow> Inr (nsdf_from_autocorr a x))"
  by (simp add: normalized_square_difference_def nsdf_from_autocorr_def energy_m_def Let_def
      split: sum.split)

lemma energy_m_guarded:
  "energy_m x = map (\<lambda>tau. if m_direct x tau = 0 then 1 / 10 ^ 10 else m_direct x tau) [0..<length x]"
proof -
  let ?cs = "0 # cumsum (map (\<lambda>v. v ^ 2) x)"
  let ?n = "length x"
  have m: "map (\<lambda>tau. ?cs ! (?n - tau) + (?cs ! ?n - ?cs ! tau)) [0..<?n] = map (m_direct x) [0..<?n]"
  proof (rule map_cong [OF refl])
    fix tau assume "tau \<in> set [0..<?n]"
    then have "tau < ?n" by simp
    then show "?cs ! (?n - tau) + (?cs ! ?n - ?cs ! tau) = m_direct x tau"
      by (rule m_from_prefix_sums)
  qed
  show ?thesis
    unfolding energy_m_def Let_def m by (simp add: eps_def comp_def)
qed

lemma energy_m_length: "length (energy_m x) = length x"
  by (simp add: energy_m_guarded)

lemma energy_m_nonzero: "0 \<notin> set (energy_m x)"
  by (auto simp: energy_m_guarded)

lemma silent_lag_no_correlation:
  assumes "m_direct x tau = 0"
  shows "r_direct x tau = 0"
proof -
  have nn: "0 \<le> (\<Sum>j = tau..<length x. (x ! j) ^ 2)" by (simp add: sum_nonneg)
  have "0 \<le> (\<Sum>j<length x - tau. (x ! j) ^ 2)" by (simp add: sum_nonneg)
  with assms nn have "(\<Sum>j<length x - tau. (x ! j) ^ 2) = 0"
    unfolding m_direct_def by linarith
  then have "\<forall>j\<in>{..<length x - tau}. (x ! j) ^ 2 = 0"
    by (subst (asm) sum_nonneg_eq_0_iff) simp_all
  then have "\<forall>j\<in>{..<length x - tau}. x ! j * x ! (j + tau) = 0" by simp
  then show ?thesis unfolding r_direct_def by (simp only: sum.neutral)
qed

lemma correlation_le_energy:
  "\<bar>2 * r_direct x tau\<bar> \<le> m_direct x tau"
proof -
  have sh: "(\<Sum>j = tau..<length x. (x ! j) ^ 2) = (\<Sum>j<length x - tau. (x ! (j + tau)) ^ 2)"
    by (rule sum.reindex_bij_witness [of _ "\<lambda>j. j + tau" "\<lambda>j. j - tau"]) auto
  have t: "\<bar>2 * (a * b)\<bar> \<le> a ^ 2 + b ^ 2" for a b :: real
  proof -
    have "0 \<le> (a - b) ^ 2" "0 \<le> (a + b) ^ 2" by simp_all
    then show ?thesis by (simp add: power2_eq_square algebra_simps abs_le_iff)
  qed
  have "\<bar>2 * r_direct x tau\<bar> = \<bar>\<Sum>j<length x - tau. 2 * (x ! j * x ! (j + tau))\<bar>"
    by (simp add: r_direct_def sum_distrib_left)
  also have "\<dots> \<le> (\<Sum>j<length x - tau. \<bar>2 * (x ! j * x ! (j + tau))\<bar>)"
    by (rule sum_abs)
  also have "\<dots> \<le> (\<Sum>j<length x - tau. (x ! j) ^ 2 + (x ! (j + tau)) ^ 2)"
    by (rule sum_mono) (rule t)
  also have "\<dots> = m_direct x tau"
    by (simp add: m_direct_def sh sum.distrib)
  finally show ?thesis .
qed

lemma nsdf_direct_bounded:
  assumes "tau < length x"
  shows "\<bar>nsdf_direct x ! tau\<bar> \<le> 1"
proof (cases "m_direct x tau = 0")
  case True
  then show ?thesis
    using assms by (simp add: nsdf_direct_def silent_lag_no_correlation)
next
  case False
  have "0 \<le> m_direct x tau" by (simp add: m_direct_def sum_nonneg)
  with False have pos: "0 < m_direct x tau" by simp
  have "\<bar>2 * r_direct x tau / m_direct x tau\<bar> = \<bar>2 * r_direct x tau\<bar> / m_direct x tau"
    using pos by simp
  also have "\<dots> \<le> 1" using correlation_le_energy [of x tau] pos by simp
  finally show ?thesis using assms False by (simp add: nsdf_direct_def)
qed


lemma impulse_frame_values:
  "map (r_direct [0, 0, 4096, 0, 0, 0]) [0..<6] = [16777216, 0, 0, 0, 0, 0]"
  "map (m_direct [0, 0, 4096, 0, 0, 0]) [0..<6] = [33554432, 33554432, 33554432, 16777216, 0, 0]"
proof -
  have s: "{..<6::nat} = {0, 1, 2, 3, 4, 5}" "{..<5::nat} = {0, 1, 2, 3, 4}"
    "{..<4::nat} = {0, 1, 2, 3}" "{..<3::nat} = {0, 1, 2}" "{..<2::nat} = {0, 1}"
    "{0..<6::nat} = {0, 1, 2, 3, 4, 5}" "{1..<6::nat} = {1, 2, 3, 4, 5}"
    "{2..<6::nat} = {2, 3, 4, 5}" "{3..<6::nat} = {3, 4, 5}" "{4..<6::nat} = {4, 5}"
    "{5..<6::nat} = {5}"
    by auto
  have u: "[0..<6] = [0, 1, 2, 3, 4, 5]" by (simp add: upt_rec)
  show "map (r_direct [0, 0, 4096, 0, 0, 0]) [0..<6] = [16777216, 0, 0, 0, 0, 0]"
    unfolding u by (simp add: r_direct_def s)
  show "map (m_direct [0, 0, 4096, 0, 0, 0]) [0..<6] = [33554432, 33554432, 33554432, 16777216, 0, 0]"
    unfolding u by (simp add: m_direct_def s)
qed

lemma impulse_frame_energy:
  "energy_m [0, 0, 4096, 0, 0, 0] = [33554432, 33554432, 33554432, 16777216, 1 / 10 ^ 10, 1 / 10 ^ 10]"
proof -
  let ?x = "[0, 0, 4096, 0, 0, 0 :: real]"
  have l: "length ?x = 6" by simp
  have "energy_m ?x
        = map ((\<lambda>v. if v = 0 then 1 / 10 ^ 10 else v) \<circ> m_direct ?x) [0..<length ?x]"
    unfolding energy_m_guarded comp_def ..
  then have "energy_m ?x
        = map (\<lambda>v. if v = 0 then 1 / 10 ^ 10 else v) (map (m_direct ?x) [0..<6])"
    by (simp only: map_map l)
  then show ?thesis unfolding impulse_frame_values by simp
qed

text \<open>
  Over the reals the function returns the array of the specification: entry \<open>tau\<close> is
  \<open>2 * r(tau)\<close> divided by the entry \<open>tau\<close> of \<open>energy_m\<close>, which is \<open>m(tau)\<close>, or \<open>1e-10\<close>
  where \<open>m(tau) = 0\<close>, and never zero.
\<close>

lemma nsdf_formula_reals:
  assumes "x \<noteq> []"
  shows "normalized_square_difference x
           = Inr (map2 (\<lambda>r v. 2 * r / v) (map (r_direct x) [0..<length x]) (energy_m x))
       \<and> length (energy_m x) = length x
       \<and> 0 \<notin> set (energy_m x)
       \<and> energy_m x
           = map (\<lambda>tau. if m_direct x tau = 0 then 1 / 10 ^ 10 else m_direct x tau) [0..<length x]"
proof -
  have "normalized_square_difference x
           = Inr (map2 (\<lambda>r v. 2 * r / v) (map (r_direct x) [0..<length x]) (energy_m x))"
    unfolding nsd_split autocorr_fft_direct [OF assms] nsdf_from_autocorr_def by simp
  then show ?thesis
    using energy_m_length [of x] energy_m_nonzero [of x] energy_m_guarded [of x] by simp
qed

text \<open>
  Claim C1 says that the returned array has \<open>nsdf[tau] = 2 * r(tau) / m(tau)\<close>, with \<open>r(tau)\<close>
  the autocorrelation sum and a zero \<open>m(tau)\<close> replaced by \<open>1e-10\<close>. Over the reals it has
  (\<open>nsdf_formula_reals\<close>), and the divisor is never zero. The source divides what its
  floating-point transform returned: at a lag with \<open>m(tau) = 0\<close> the autocorrelation sum
  is 0, and the returned entry is the transform's value at that lag multiplied by
  \<open>2 * 10^10\<close>. The transform of the frame \<open>[0, 0, 4096, 0, 0, 0]\<close> works on values of size
  \<open>4096^2\<close> in double precision and leaves a round-off of the order of \<open>1e-10\<close> at lag 4;
  with \<open>8.5e-11\<close> the entry is \<open>1.7\<close>, not 0, and outside \<open>[-1, 1]\<close>, where the NSDF lies
  (\<open>nsdf_direct_bounded\<close>).
\<close>

theorem guard_amplifies_roundoff:
  assumes "tau < length x" and "length autocorr = length x" and "m_direct x tau = 0"
  shows "r_direct x tau = 0
       \<and> energy_m x ! tau = 1 / 10 ^ 10
       \<and> nsdf_from_autocorr autocorr x ! tau = 2 * 10 ^ 10 * autocorr ! tau"
proof -
  have r: "r_direct x tau = 0" using assms(3) by (rule silent_lag_no_correlation)
  have e: "energy_m x ! tau = 1 / 10 ^ 10"
    using assms(1,3) by (simp add: energy_m_guarded)
  have "nsdf_from_autocorr autocorr x ! tau = 2 * autocorr ! tau / energy_m x ! tau"
    using assms(1,2) by (simp add: nsdf_from_autocorr_def energy_m_length)
  then have "nsdf_from_autocorr autocorr x ! tau = 2 * 10 ^ 10 * autocorr ! tau"
    unfolding e by simp
  with r e show ?thesis by simp
qed

theorem guard_amplifies_roundoff_witness:
  "(4 :: nat) < length [0, 0, 4096, 0, 0, 0 :: real]
   \<and> length [16777216, 0, 0, 0, 85 / 10 ^ 12, 0 :: real] = length [0, 0, 4096, 0, 0, 0 :: real]
   \<and> m_direct [0, 0, 4096, 0, 0, 0] 4 = 0
   \<and> r_direct [0, 0, 4096, 0, 0, 0] 4 = 0
   \<and> nsdf_from_autocorr [16777216, 0, 0, 0, 85 / 10 ^ 12, 0] [0, 0, 4096, 0, 0, 0] ! 4 = 17 / 10"
proof -
  let ?x = "[0, 0, 4096, 0, 0, 0 :: real]"
  let ?a = "[16777216, 0, 0, 0, 85 / 10 ^ 12, 0 :: real]"
  have s: "{..<2::nat} = {0, 1}" "{4..<6::nat} = {4, 5}" by auto
  have h1: "(4 :: nat) < length ?x" by simp
  have h2: "length ?a = length ?x" by simp
  have h3: "m_direct ?x 4 = 0" by (simp add: m_direct_def s)
  from guard_amplifies_roundoff [OF h1 h2 h3]
  have "r_direct ?x 4 = 0" and "nsdf_from_autocorr ?a ?x ! 4 = 2 * 10 ^ 10 * ?a ! 4"
    by simp_all
  then have "r_direct ?x 4 = 0" and "nsdf_from_autocorr ?a ?x ! 4 = 17 / 10"
    by simp_all
  with h1 h2 h3 show ?thesis by simp
qed

text \<open>
  Claim C2 says that the autocorrelation of the transform-domain method equals the direct
  sum at every lag, exactly over the reals and within floating-point tolerance
  numerically, so that the NSDF of either method agrees at every lag. The equality over
  the reals holds (\<open>autocorr_fft_direct\<close>, \<open>nsd_direct\<close>). The agreement of the NSDF does not
  follow from a tolerance on the autocorrelation: for the frame \<open>[0, 0, 4096, 0, 0, 0]\<close> an
  array within \<open>1e-10\<close> of the exact autocorrelation, as a double-precision transform
  returns it, gives an NSDF of \<open>1.7\<close> at lag 4, where the direct method gives 0.
\<close>

theorem fft_nsdf_disagrees_at_silent_lag:
  "autocorr_fft [0, 0, 4096, 0, 0, 0] = Inr [16777216, 0, 0, 0, 0, 0]
   \<and> nsdf_direct [0, 0, 4096, 0, 0, 0] = [1, 0, 0, 0, 0, 0]
   \<and> \<bar>85 / 10 ^ 12 - r_direct [0, 0, 4096, 0, 0, 0] 4\<bar> < 1 / 10 ^ 10
   \<and> nsdf_from_autocorr [16777216, 0, 0, 0, 85 / 10 ^ 12, 0] [0, 0, 4096, 0, 0, 0]
        = [1, 0, 0, 0, 17 / 10, 0]"
proof -
  let ?x = "[0, 0, 4096, 0, 0, 0 :: real]"
  have l: "length ?x = 6" by simp
  have a: "autocorr_fft ?x = Inr [16777216, 0, 0, 0, 0, 0]"
    using autocorr_fft_direct [of ?x] unfolding l impulse_frame_values by simp
  have "nsdf_direct ?x = map2 (\<lambda>r v. 2 * r / (if v = 0 then 1 / 10 ^ 10 else v))
                          (map (r_direct ?x) [0..<6]) (map (m_direct ?x) [0..<6])"
    unfolding nsdf_direct_def l map2_same ..
  then have b: "nsdf_direct ?x = [1, 0, 0, 0, 0, 0]"
    unfolding impulse_frame_values by simp
  have s: "{..<2::nat} = {0, 1}" by auto
  have c: "\<bar>85 / 10 ^ 12 - r_direct ?x 4\<bar> < 1 / 10 ^ 10"
    by (simp add: r_direct_def s)
  have d: "nsdf_from_autocorr [16777216, 0, 0, 0, 85 / 10 ^ 12, 0] ?x = [1, 0, 0, 0, 17 / 10, 0]"
    unfolding nsdf_from_autocorr_def impulse_frame_energy by simp
  from a b c d show ?thesis by simp
qed

subsection \<open>Peak picking\<close>

lemma peak_loop_filter:
  "peak_loop nsdf t is acc =
     acc @ map (\<lambda>i. (i, nsdf ! i))
       (filter (\<lambda>i. nsdf ! i > t \<and> nsdf ! i > 0 \<and> nsdf ! i > nsdf ! (i - 1) \<and> nsdf ! i > nsdf ! (i + 1)) is)"
  by (induction "is" arbitrary: acc) auto

lemma peak_picking_filter:
  "peak_picking nsdf t = map (\<lambda>i. (i, nsdf ! i)) (filter (qualifies nsdf t) [1..<length nsdf - 1])"
proof -
  have "filter (\<lambda>i. nsdf ! i > t \<and> nsdf ! i > 0 \<and> nsdf ! i > nsdf ! (i - 1) \<and> nsdf ! i > nsdf ! (i + 1))
          [1..<length nsdf - 1] = filter (qualifies nsdf t) [1..<length nsdf - 1]"
    by (rule filter_cong) (auto simp: qualifies_def)
  then show ?thesis
    by (simp add: peak_picking_def peak_loop_filter)
qed

lemma qualifies_range: "qualifies nsdf t i \<longleftrightarrow> i \<in> set [1..<length nsdf - 1] \<and> qualifies nsdf t i"
  by (auto simp: qualifies_def)

lemma peak_picking_set:
  "set (peak_picking nsdf t) = {(i, nsdf ! i) | i. qualifies nsdf t i}"
proof -
  have "set (peak_picking nsdf t) = (\<lambda>i. (i, nsdf ! i)) ` {i \<in> set [1..<length nsdf - 1]. qualifies nsdf t i}"
    by (simp add: peak_picking_filter)
  also have "{i \<in> set [1..<length nsdf - 1]. qualifies nsdf t i} = {i. qualifies nsdf t i}"
    using qualifies_range by blast
  finally show ?thesis by auto
qed

lemma peak_picking_indices_sorted:
  "sorted_wrt (<) (map fst (peak_picking nsdf t))"
proof -
  have "map fst (peak_picking nsdf t) = filter (qualifies nsdf t) [1..<length nsdf - 1]"
    by (simp add: peak_picking_filter comp_def)
  moreover have "sorted_wrt (<) (filter (qualifies nsdf t) [1..<length nsdf - 1])"
    by (rule sorted_wrt_filter) simp
  ultimately show ?thesis by simp
qed

text \<open>
  Claim C3. For every NSDF array of length \<open>n \<ge> 3\<close> and every threshold, \<open>peak_picking\<close>
  returns, in increasing lag order, exactly the indices \<open>i\<close> in \<open>[1, n-2]\<close> with
  \<open>nsdf[i] > threshold\<close>, \<open>nsdf[i] > 0\<close>, \<open>nsdf[i] > nsdf[i-1]\<close> and \<open>nsdf[i] > nsdf[i+1]\<close>,
  each paired with its value; lag 0 and the last index \<open>n-1\<close> are never included; when no
  index qualifies the result is the empty list (an ordinary value: the function has no
  error result).
\<close>

theorem peak_picking_spec:
  assumes "3 \<le> length nsdf"
  shows "peak_picking nsdf threshold =
           map (\<lambda>i. (i, nsdf ! i))
             (filter (\<lambda>i. nsdf ! i > threshold \<and> nsdf ! i > 0 \<and>
                          nsdf ! i > nsdf ! (i - 1) \<and> nsdf ! i > nsdf ! (i + 1))
                [1..<length nsdf - 1])
         \<and> sorted_wrt (<) (map fst (peak_picking nsdf threshold))
         \<and> 0 \<notin> fst ` set (peak_picking nsdf threshold)
         \<and> length nsdf - 1 \<notin> fst ` set (peak_picking nsdf threshold)
         \<and> (peak_picking nsdf threshold = [] \<longleftrightarrow>
              (\<forall>i. \<not> (1 \<le> i \<and> i \<le> length nsdf - 2 \<and>
                    nsdf ! i > threshold \<and> nsdf ! i > 0 \<and>
                    nsdf ! i > nsdf ! (i - 1) \<and> nsdf ! i > nsdf ! (i + 1))))"
proof -
  have a: "peak_picking nsdf threshold =
           map (\<lambda>i. (i, nsdf ! i))
             (filter (\<lambda>i. nsdf ! i > threshold \<and> nsdf ! i > 0 \<and>
                          nsdf ! i > nsdf ! (i - 1) \<and> nsdf ! i > nsdf ! (i + 1))
                [1..<length nsdf - 1])"
    by (simp add: peak_picking_def peak_loop_filter)
  have b: "sorted_wrt (<) (map fst (peak_picking nsdf threshold))"
    by (rule peak_picking_indices_sorted)
  have c: "0 \<notin> fst ` set (peak_picking nsdf threshold)"
    by (auto simp: peak_picking_set qualifies_def)
  have d: "length nsdf - 1 \<notin> fst ` set (peak_picking nsdf threshold)"
    by (auto simp: peak_picking_set qualifies_def)
  have "peak_picking nsdf threshold = [] \<longleftrightarrow> (\<forall>i. \<not> qualifies nsdf threshold i)"
    using peak_picking_set [of nsdf threshold] by auto
  moreover have "qualifies nsdf threshold i \<longleftrightarrow>
      (1 \<le> i \<and> i \<le> length nsdf - 2 \<and> nsdf ! i > threshold \<and> nsdf ! i > 0 \<and>
       nsdf ! i > nsdf ! (i - 1) \<and> nsdf ! i > nsdf ! (i + 1))" for i
    using assms by (auto simp: qualifies_def)
  ultimately have e: "peak_picking nsdf threshold = [] \<longleftrightarrow>
              (\<forall>i. \<not> (1 \<le> i \<and> i \<le> length nsdf - 2 \<and>
                    nsdf ! i > threshold \<and> nsdf ! i > 0 \<and>
                    nsdf ! i > nsdf ! (i - 1) \<and> nsdf ! i > nsdf ! (i + 1)))"
    by simp
  from a b c d e show ?thesis by blast
qed

theorem peak_picking_spec_witness:
  "3 \<le> length [1, 1/2, 9/10, 1/5 :: real]
   \<and> peak_picking [1, 1/2, 9/10, 1/5] (1/10) = [(2, 9/10)]
   \<and> peak_picking [1, 1/2, 1/4, 1/5] (1/10) = []"
proof -
  have h: "3 \<le> length [1, 1/2, 9/10, 1/5 :: real]" by simp
  have h': "3 \<le> length [1, 1/2, 1/4, 1/5 :: real]" by simp
  have u: "[1..<length [1, 1/2, 9/10, 1/5 :: real] - 1] = [1, 2]"
    by (simp add: upt_rec)
  have u': "[1..<length [1, 1/2, 1/4, 1/5 :: real] - 1] = [1, 2]"
    by (simp add: upt_rec)
  have "peak_picking [1, 1/2, 9/10, 1/5] (1/10) = [(2, 9/10)]"
    using peak_picking_spec [OF h, of "1/10"] unfolding u by simp
  moreover have "peak_picking [1, 1/2, 1/4, 1/5] (1/10) = []"
    using peak_picking_spec [OF h', of "1/10"] unfolding u' by simp
  ultimately show ?thesis by simp
qed

subsection \<open>Parabolic interpolation\<close>

text \<open>
  Claim C5. For every NSDF array of length \<open>n\<close> and integer peak index \<open>i\<close>,
  \<open>parabolic_interpolation\<close> returns \<open>i\<close> unchanged when \<open>i \<le> 0\<close> or \<open>i \<ge> n - 1\<close>, and
  returns \<open>i\<close> unchanged when \<open>|denom| < 1e-10\<close> where
  \<open>denom = nsdf[i-1] - 2 * nsdf[i] + nsdf[i+1]\<close>; otherwise it returns
  \<open>i + 0.5 * (nsdf[i-1] - nsdf[i+1]) / denom\<close>.
\<close>

theorem parabolic_interpolation_spec:
  "(i \<le> 0 \<or> i \<ge> int (length nsdf) - 1 \<longrightarrow>
      parabolic_interpolation nsdf i = real_of_int i)
   \<and> (0 < i \<and> i < int (length nsdf) - 1 \<longrightarrow>
       (let denom = nsdf ! nat (i - 1) - 2 * nsdf ! nat i + nsdf ! nat (i + 1) in
          (\<bar>denom\<bar> < 1 / 10 ^ 10 \<longrightarrow> parabolic_interpolation nsdf i = real_of_int i)
        \<and> (\<not> \<bar>denom\<bar> < 1 / 10 ^ 10 \<longrightarrow>
             parabolic_interpolation nsdf i =
               real_of_int i + 0.5 * (nsdf ! nat (i - 1) - nsdf ! nat (i + 1)) / denom)))"
  by (simp add: parabolic_interpolation_def eps_def Let_def)

theorem parabolic_interpolation_spec_witness:
  "parabolic_interpolation [1/5, 1, 3/5] 0 = 0
   \<and> parabolic_interpolation [1/5, 1, 3/5] 2 = 2
   \<and> parabolic_interpolation [1, 1, 1] 1 = 1
   \<and> parabolic_interpolation [1/5, 1, 3/5] 1 = 7/6"
proof -
  have "parabolic_interpolation [1/5, 1, 3/5] 0 = 0"
    using parabolic_interpolation_spec [of 0 "[1/5, 1, 3/5]"] by simp
  moreover have "parabolic_interpolation [1/5, 1, 3/5] 2 = 2"
    using parabolic_interpolation_spec [of 2 "[1/5, 1, 3/5]"] by simp
  moreover have "parabolic_interpolation [1, 1, 1] 1 = 1"
    using parabolic_interpolation_spec [of 1 "[1, 1, 1]"] by (simp add: Let_def)
  moreover have "parabolic_interpolation [1/5, 1, 3/5] 1 = 7/6"
    using parabolic_interpolation_spec [of 1 "[1/5, 1, 3/5]"] by (simp add: Let_def)
  ultimately show ?thesis by simp
qed

subsection \<open>Fundamental selection\<close>

lemma py_max_key_ge_best: "key b \<le> key (py_max_key key b ps)"
proof (induction ps arbitrary: b)
  case Nil
  show ?case by simp
next
  case (Cons p ps)
  show ?case
  proof (cases "key p > key b")
    case True
    then have "key b \<le> key p" by simp
    also have "key p \<le> key (py_max_key key p ps)" by (rule Cons.IH)
    finally show ?thesis using True by simp
  next
    case False
    then show ?thesis using Cons.IH [of b] by simp
  qed
qed

lemma py_max_key_first:
  "\<exists>pre post. b # ps = pre @ py_max_key key b ps # post \<and>
      (\<forall>q\<in>set pre. key q < key (py_max_key key b ps)) \<and>
      (\<forall>q\<in>set post. key q \<le> key (py_max_key key b ps))"
proof (induction ps arbitrary: b)
  case Nil
  have "[b] = [] @ py_max_key key b [] # []" by simp
  then show ?case by fastforce
next
  case (Cons p ps)
  show ?case
  proof (cases "key p > key b")
    case True
    let ?r = "py_max_key key p ps"
    have r: "py_max_key key b (p # ps) = ?r" using True by simp
    from Cons.IH [of p] obtain pre post where d: "p # ps = pre @ ?r # post"
      and lt: "\<forall>q\<in>set pre. key q < key ?r" and le: "\<forall>q\<in>set post. key q \<le> key ?r"
      by blast
    have "key b < key ?r" using True py_max_key_ge_best [of key p ps] by simp
    with lt have "\<forall>q\<in>set (b # pre). key q < key ?r" by simp
    moreover have "b # p # ps = (b # pre) @ ?r # post" using d by simp
    ultimately show ?thesis unfolding r using le by blast
  next
    case False
    let ?r = "py_max_key key b ps"
    have r: "py_max_key key b (p # ps) = ?r" using False by simp
    from Cons.IH [of b] obtain pre post where d: "b # ps = pre @ ?r # post"
      and lt: "\<forall>q\<in>set pre. key q < key ?r" and le: "\<forall>q\<in>set post. key q \<le> key ?r"
      by blast
    have pb: "key p \<le> key b" using False by simp
    show ?thesis
    proof (cases pre)
      case Nil
      from d have e: "b # ps = ?r # post" unfolding Nil append_Nil .
      have rb: "?r = b" using e by (metis list.inject)
      have pp: "post = ps" using e by (metis list.inject)
      have "b # p # ps = [] @ ?r # (p # ps)" using rb by simp
      moreover have "\<forall>q\<in>set (p # ps). key q \<le> key ?r"
        using le pb rb pp by simp
      ultimately show ?thesis unfolding r by (metis empty_iff empty_set)
    next
      case (Cons b' pre')
      from d have e: "b # ps = b' # (pre' @ ?r # post)" unfolding Cons append_Cons .
      have b': "b' = b" using e by (metis list.inject)
      have ps: "ps = pre' @ ?r # post" using e by (metis list.inject)
      have kb: "key b < key ?r" using lt Cons b' by simp
      with pb have "key p < key ?r" by simp
      with lt Cons kb have "\<forall>q\<in>set (b # p # pre'). key q < key ?r" by simp
      moreover have "b # p # ps = (b # p # pre') @ ?r # post" using ps by simp
      ultimately show ?thesis unfolding r using le by blast
    qed
  qed
qed

text \<open>
  Claim C4. For every non-empty ordered list of peak candidates \<open>first # rest\<close>, the
  selection takes the first (lowest-lag) candidate whenever its value is \<open>\<ge> 0.8\<close>;
  otherwise it takes a candidate of maximum value over the whole list, and among equal
  maxima the first in list order: every candidate before the selected position has a
  strictly smaller value.
\<close>

theorem best_peak_spec:
  "(snd first \<ge> 0.8 \<longrightarrow> best_peak first rest = first)
   \<and> (snd first < 0.8 \<longrightarrow>
        (\<exists>i<length (first # rest).
           best_peak first rest = (first # rest) ! i
           \<and> (\<forall>p\<in>set (first # rest). snd p \<le> snd (best_peak first rest))
           \<and> (\<forall>j<i. snd ((first # rest) ! j) < snd (best_peak first rest))))"
proof -
  have a: "snd first \<ge> 0.8 \<longrightarrow> best_peak first rest = first"
    by (simp add: best_peak_def strong_clarity_threshold_def)
  have b: "\<exists>i<length (first # rest).
           best_peak first rest = (first # rest) ! i
           \<and> (\<forall>p\<in>set (first # rest). snd p \<le> snd (best_peak first rest))
           \<and> (\<forall>j<i. snd ((first # rest) ! j) < snd (best_peak first rest))"
    if lt: "snd first < 0.8"
  proof -
    let ?r = "py_max_key snd first rest"
    have r: "best_peak first rest = ?r"
      using lt by (simp add: best_peak_def strong_clarity_threshold_def)
    obtain pre post where d: "first # rest = pre @ ?r # post"
      and l: "\<forall>q\<in>set pre. snd q < snd ?r" and le: "\<forall>q\<in>set post. snd q \<le> snd ?r"
      using py_max_key_first [of first rest snd] by blast
    have 1: "length pre < length (first # rest)" by (simp add: d)
    have 2: "(first # rest) ! length pre = ?r" by (simp add: d)
    have 3: "\<forall>p\<in>set (first # rest). snd p \<le> snd ?r"
      unfolding d using l le by auto
    have 4: "\<forall>j<length pre. snd ((first # rest) ! j) < snd ?r"
      unfolding d using l by (simp add: nth_append)
    show ?thesis unfolding r using 1 2 3 4 by metis
  qed
  from a b show ?thesis by blast
qed

theorem best_peak_spec_witness:
  "best_peak (1, 9/10) [(2, 95/100)] = (1, 9/10)
   \<and> best_peak (1, 1/2) [(2, 7/10), (3, 3/10), (4, 7/10)] = (2, 7/10)"
proof -
  have "best_peak (1, 9/10) [(2, 95/100)] = (1, 9/10)"
    using best_peak_spec [of "(1, 9/10)" "[(2, 95/100)]"] by simp
  moreover have "best_peak (1, 1/2) [(2, 7/10), (3, 3/10), (4, 7/10)] = (2, 7/10)"
  proof -
    let ?f = "(1::nat, 1/2::real)"
    let ?r = "[(2::nat, 7/10::real), (3, 3/10), (4, 7/10)]"
    have "snd ?f < 0.8" by simp
    with best_peak_spec [of ?f ?r]
    obtain i where i: "i < length (?f # ?r)" "best_peak ?f ?r = (?f # ?r) ! i"
      and le: "\<forall>p\<in>set (?f # ?r). snd p \<le> snd (best_peak ?f ?r)"
      and lt: "\<forall>j<i. snd ((?f # ?r) ! j) < snd (best_peak ?f ?r)"
      by blast
    from i(1) consider "i = 0" | "i = 1" | "i = 2" | "i = 3" by fastforce
    then show ?thesis
    proof cases
      case 1 with i(2) le show ?thesis by simp
    next
      case 2 with i(2) show ?thesis by simp
    next
      case 3 with i(2) le show ?thesis by simp
    next
      case 4
      have "(1::nat) < 3" by simp
      with lt 4 have "snd ((?f # ?r) ! 1) < snd (best_peak ?f ?r)" by blast
      with i(2) 4 show ?thesis by simp
    qed
  qed
  ultimately show ?thesis by simp
qed

subsection \<open>Frame pitch detector\<close>

lemma mpm_empty: "mpm_pitch_detection [] sample_rate threshold = Inl OverflowError"
  by (simp add: mpm_pitch_detection_def nsd_empty)

lemma mpm_nonempty:
  assumes "x \<noteq> []"
  shows "\<exists>r. mpm_pitch_detection x sample_rate threshold = Inr r"
  unfolding mpm_pitch_detection_def nsd_direct [OF assms]
  by (simp add: Let_def split: list.split prod.split)

lemma peak_picking_short: "length nsdf < 3 \<Longrightarrow> peak_picking nsdf threshold = []"
  by (simp add: peak_picking_def)

lemma mpm_short:
  assumes "length x = 1 \<or> length x = 2"
  shows "mpm_pitch_detection x sample_rate threshold = Inr (None, None)"
proof -
  from assms have ne: "x \<noteq> []" by auto
  have "length (nsdf_direct x) < 3" using assms by (auto simp: nsdf_direct_def)
  then have "peak_picking (nsdf_direct x) threshold = []" by (rule peak_picking_short)
  then show ?thesis
    unfolding mpm_pitch_detection_def nsd_direct [OF ne] by simp
qed

lemma best_peak_in_set: "best_peak first rest \<in> set (first # rest)"
proof -
  obtain pre post where "first # rest = pre @ py_max_key snd first rest # post"
    using py_max_key_first [of first rest snd] by blast
  then have "py_max_key snd first rest \<in> set (first # rest)"
    by (metis in_set_conv_decomp)
  then show ?thesis by (simp add: best_peak_def Let_def)
qed

lemma peak_value: "(i, v) \<in> set (peak_picking nsdf threshold) \<Longrightarrow> v = nsdf ! i"
  by (auto simp: peak_picking_set)

lemma nsd_1010: "normalized_square_difference [1, 0, 1, 0] = Inr [1, 0, 1, 0]"
proof -
  have s: "{..<4::nat} = {0, 1, 2, 3}" "{..<3::nat} = {0, 1, 2}" "{..<2::nat} = {0, 1}"
    "{1..<4::nat} = {1, 2, 3}" "{2..<4::nat} = {2, 3}" "{3..<4::nat} = {3}"
    by auto
  have u: "[0..<length [1, 0, 1, 0 :: real]] = [0, 1, 2, 3]" by (simp add: upt_rec)
  have "nsdf_direct [1, 0, 1, 0] = [1, 0, 1, 0]"
    unfolding nsdf_direct_def u by (simp add: r_direct_def m_direct_def s)
  then show ?thesis by (simp add: nsd_direct)
qed

lemma peaks_1010: "threshold < 1 \<Longrightarrow> peak_picking [1, 0, 1, 0] threshold = [(2, 1)]"
  by (simp add: peak_picking_def upt_rec)

lemma peaks_1010_none: "1 \<le> threshold \<Longrightarrow> peak_picking [1, 0, 1, 0] threshold = []"
  by (simp add: peak_picking_def upt_rec)

lemma mpm_1010:
  "threshold < 1 \<Longrightarrow> mpm_pitch_detection [1, 0, 1, 0] sample_rate threshold
     = Inr (Some (sample_rate / 2), Some 1)"
  by (simp add: mpm_pitch_detection_def nsd_1010 peaks_1010 best_peak_def
      strong_clarity_threshold_def parabolic_interpolation_def eps_def)

lemma mpm_1010_none:
  "1 \<le> threshold \<Longrightarrow> mpm_pitch_detection [1, 0, 1, 0] sample_rate threshold = Inr (None, None)"
  by (simp add: mpm_pitch_detection_def nsd_1010 peaks_1010_none)


lemma refined_lag_positive:
  assumes q: "qualifies nsdf threshold i"
  shows "parabolic_interpolation nsdf (int i) > 1 / 2"
proof -
  let ?a = "nsdf ! (i - 1)" and ?b = "nsdf ! i" and ?c = "nsdf ! (i + 1)"
  from q have i: "1 \<le> i" "i + 2 \<le> length nsdf" and ab: "?a < ?b" and cb: "?c < ?b"
    by (simp_all add: qualifies_def)
  have idx: "nat (int i - 1) = i - 1" "nat (int i + 1) = i + 1" using i by simp_all
  let ?d = "?a - 2 * ?b + ?c"
  have dneg: "?d < 0" using ab cb by simp
  have inr: "\<not> (int i \<le> 0 \<or> int i \<ge> int (length nsdf) - 1)" using i by simp
  show ?thesis
  proof (cases "\<bar>?d\<bar> < eps")
    case True
    then have "parabolic_interpolation nsdf (int i) = real i"
      using inr by (simp add: parabolic_interpolation_def Let_def idx)
    then show ?thesis using i by simp
  next
    case False
    then have e: "parabolic_interpolation nsdf (int i) = real i + 0.5 * (?a - ?c) / ?d"
      using inr by (simp add: parabolic_interpolation_def Let_def idx)
    have "\<bar>?a - ?c\<bar> < - ?d" using ab cb by simp
    then have "\<bar>(?a - ?c) / ?d\<bar> < 1" using dneg by (simp add: field_simps)
    then have "- 1 < (?a - ?c) / ?d" unfolding abs_less_iff by linarith
    moreover have "0.5 * (?a - ?c) / ?d = ((?a - ?c) / ?d) / 2" by simp
    moreover have "1 \<le> real i" using i by simp
    ultimately show ?thesis unfolding e by linarith
  qed
qed

text \<open>
  Claim C6. For every audio frame, sample rate and threshold for which the NSDF is
  computed (the frame is not empty), \<open>mpm_pitch_detection\<close> returns "no estimate"
  \<open>(None, None)\<close> when the peak list is empty, and "no estimate" when the refined lag is
  \<open>\<le> 0\<close>; otherwise it returns the frequency \<open>sample_rate / refined_lag\<close> together with a
  clarity equal to the NSDF value at the selected peak's unrefined integer index. (By
  \<open>refined_lag_positive\<close> the refined lag of a selected peak is in fact always above \<open>1/2\<close>.)
\<close>

theorem mpm_pitch_detection_spec:
  assumes "normalized_square_difference audio_buffer = Inr nsdf"
  shows "(peak_picking nsdf threshold = [] \<longrightarrow>
            mpm_pitch_detection audio_buffer sample_rate threshold = Inr (None, None))
       \<and> (peak_picking nsdf threshold = first # rest \<longrightarrow>
            mpm_pitch_detection audio_buffer sample_rate threshold =
              (if parabolic_interpolation nsdf (int (fst (best_peak first rest))) \<le> 0
               then Inr (None, None)
               else Inr (Some (sample_rate
                                / parabolic_interpolation nsdf (int (fst (best_peak first rest)))),
                         Some (nsdf ! fst (best_peak first rest)))))"
proof -
  have a: "mpm_pitch_detection audio_buffer sample_rate threshold = Inr (None, None)"
    if "peak_picking nsdf threshold = []"
    using that assms by (simp add: mpm_pitch_detection_def)
  have b: "mpm_pitch_detection audio_buffer sample_rate threshold =
              (if parabolic_interpolation nsdf (int (fst (best_peak first rest))) \<le> 0
               then Inr (None, None)
               else Inr (Some (sample_rate
                                / parabolic_interpolation nsdf (int (fst (best_peak first rest)))),
                         Some (nsdf ! fst (best_peak first rest))))"
    if p: "peak_picking nsdf threshold = first # rest"
  proof -
    obtain i c where bp: "best_peak first rest = (i, c)" by (cases "best_peak first rest")
    have "(i, c) \<in> set (peak_picking nsdf threshold)"
      using best_peak_in_set [of first rest] by (simp add: bp p)
    then have c: "c = nsdf ! i" by (rule peak_value)
    show ?thesis
      using assms by (simp add: mpm_pitch_detection_def p bp c Let_def not_le)
  qed
  from a b show ?thesis by blast
qed

theorem mpm_pitch_detection_spec_witness:
  "normalized_square_difference [1, 0, 1, 0] = Inr [1, 0, 1, 0]
   \<and> mpm_pitch_detection [1, 0, 1, 0] 48000 1 = Inr (None, None)
   \<and> mpm_pitch_detection [1, 0, 1, 0] 48000 (1 / 10) = Inr (Some 24000, Some 1)"
proof -
  have n: "normalized_square_difference [1, 0, 1, 0] = Inr [1, 0, 1, 0]" by (rule nsd_1010)
  have p0: "peak_picking [1, 0, 1, 0] 1 = []" by (simp add: peaks_1010_none)
  have p1: "peak_picking [1, 0, 1, 0] (1 / 10) = [(2, 1)]" by (simp add: peaks_1010)
  have bp: "best_peak (2, 1) [] = (2, 1)"
    by (simp add: best_peak_def strong_clarity_threshold_def)
  have lag: "parabolic_interpolation [1, 0, 1, 0] 2 = 2"
    by (simp add: parabolic_interpolation_def eps_def)
  have "mpm_pitch_detection [1, 0, 1, 0] 48000 1 = Inr (None, None)"
    using mpm_pitch_detection_spec [OF n, where threshold = 1 and sample_rate = 48000] p0
    by simp
  moreover have "mpm_pitch_detection [1, 0, 1, 0] 48000 (1 / 10) = Inr (Some 24000, Some 1)"
    using mpm_pitch_detection_spec [OF n, where threshold = "1 / 10" and first = "(2, 1)"
        and rest = "[]" and sample_rate = 48000] p1
    by (simp add: bp lag)
  ultimately show ?thesis using n by simp
qed

text \<open>
  Claim C10. For every audio buffer, sample rate and threshold, the result of
  \<open>mpm_pitch_detection\<close> is either \<open>(None, None)\<close> or a pair with both fields present,
  and whenever a frequency is present and the sample rate is positive, the frequency is
  strictly positive; a frequency never comes without a clarity, nor a clarity without a
  frequency. Only the empty buffer gives no result: it raises.
\<close>

theorem mpm_result_shape:
  "(case mpm_pitch_detection audio_buffer sample_rate threshold of
      Inl e \<Rightarrow> audio_buffer = []
    | Inr (frequency, clarity) \<Rightarrow>
        audio_buffer \<noteq> [] \<and>
        ((frequency = None \<and> clarity = None)
         \<or> (\<exists>f c. frequency = Some f \<and> clarity = Some c \<and> (0 < sample_rate \<longrightarrow> 0 < f))))"
proof (cases "audio_buffer = []")
  case True
  then show ?thesis by (simp add: mpm_empty)
next
  case False
  then have n: "normalized_square_difference audio_buffer = Inr (nsdf_direct audio_buffer)"
    by (rule nsd_direct)
  show ?thesis
    using False unfolding mpm_pitch_detection_def n
    by (auto simp: Let_def split: list.split prod.split)
qed

theorem mpm_result_shape_witness:
  "mpm_pitch_detection [1, 0, 1, 0] 48000 (1 / 10) = Inr (Some 24000, Some 1)
   \<and> (0::real) < 48000 \<and> (0::real) < 24000
   \<and> mpm_pitch_detection [1, 0, 1, 0] 48000 1 = Inr (None, None)
   \<and> mpm_pitch_detection [] 48000 (1 / 10) = Inl OverflowError"
proof -
  have e: "mpm_pitch_detection [1, 0, 1, 0] 48000 (1 / 10) = Inr (Some 24000, Some 1)"
    using mpm_1010 [of "1 / 10" 48000] by simp
  have "(0::real) < 48000 \<longrightarrow> (0::real) < 24000"
    using mpm_result_shape [of "[1, 0, 1, 0]" 48000 "1 / 10"] unfolding e by simp
  moreover have "mpm_pitch_detection [1, 0, 1, 0] 48000 1 = Inr (None, None)"
    by (simp add: mpm_1010_none)
  moreover have "mpm_pitch_detection [] 48000 (1 / 10) = Inl OverflowError"
    by (rule mpm_empty)
  ultimately show ?thesis using e by simp
qed


lemma detect_zero_hop:
  "detect_pitch_mpm audio sample_rate frame_length 0 threshold fmin fmax = Inl ZeroDivisionError"
  by (simp add: detect_pitch_mpm_def)

lemma detect_negative_count:
  assumes "hop_length \<noteq> 0" and "1 + (int (length audio) - frame_length) div hop_length < 0"
  shows "detect_pitch_mpm audio sample_rate frame_length hop_length threshold fmin fmax = Inl ValueError"
  using assms by (simp add: detect_pitch_mpm_def Let_def)

lemma detect_zero_sample_rate:
  assumes "hop_length \<noteq> 0" and "0 < 1 + (int (length audio) - frame_length) div hop_length"
  shows "detect_pitch_mpm audio 0 frame_length hop_length threshold fmin fmax = Inl ZeroDivisionError"
proof -
  define num where "num = nat (1 + (int (length audio) - frame_length) div hop_length)"
  have "0 < num" using assms(2) by (simp add: num_def)
  then have u: "[0..<num] = 0 # [Suc 0..<num]" by (rule upt_conv_Cons)
  have "frames_loop audio 0 frame_length hop_length threshold fmin fmax [0..<num]
          (replicate num None, replicate num None, replicate num 0) = Inl ZeroDivisionError"
    unfolding u by simp
  then show ?thesis
    using assms by (simp add: detect_pitch_mpm_def Let_def num_def)
qed

text \<open>
  Claim C9, amended. Of the invalid inputs, an empty frame makes single-frame detection
  fail (\<open>OverflowError\<close>), a zero hop length makes the tracker fail
  (\<open>ZeroDivisionError\<close>), and so does a zero sample rate when the tracker has at least
  one frame; each is raised to the immediate caller. No input is validated: for every
  non-empty frame, whatever the sample rate and the threshold, single-frame detection
  returns a normal result, and for a frame of length 1 or 2 that result is "no estimate".
\<close>

theorem invalid_input_behaviour:
  "mpm_pitch_detection [] sample_rate threshold = Inl OverflowError
   \<and> (audio_buffer \<noteq> [] \<longrightarrow>
        (\<exists>r. mpm_pitch_detection audio_buffer sample_rate threshold = Inr r))
   \<and> (length audio_buffer = 1 \<or> length audio_buffer = 2 \<longrightarrow>
        mpm_pitch_detection audio_buffer sample_rate threshold = Inr (None, None))
   \<and> detect_pitch_mpm audio sample_rate frame_length 0 threshold fmin fmax
        = Inl ZeroDivisionError
   \<and> (hop_length \<noteq> 0 \<and> 0 < 1 + (int (length audio) - frame_length) div hop_length \<longrightarrow>
        detect_pitch_mpm audio 0 frame_length hop_length threshold fmin fmax
          = Inl ZeroDivisionError)"
proof -
  have a: "mpm_pitch_detection [] sample_rate threshold = Inl OverflowError"
    by (rule mpm_empty)
  have b: "audio_buffer \<noteq> [] \<longrightarrow>
        (\<exists>r. mpm_pitch_detection audio_buffer sample_rate threshold = Inr r)"
    using mpm_nonempty [of audio_buffer sample_rate threshold] by simp
  have c: "length audio_buffer = 1 \<or> length audio_buffer = 2 \<longrightarrow>
        mpm_pitch_detection audio_buffer sample_rate threshold = Inr (None, None)"
    using mpm_short [of audio_buffer sample_rate threshold] by simp
  have d: "detect_pitch_mpm audio sample_rate frame_length 0 threshold fmin fmax
        = Inl ZeroDivisionError"
    by (rule detect_zero_hop)
  have e: "hop_length \<noteq> 0 \<and> 0 < 1 + (int (length audio) - frame_length) div hop_length \<longrightarrow>
        detect_pitch_mpm audio 0 frame_length hop_length threshold fmin fmax
          = Inl ZeroDivisionError"
    using detect_zero_sample_rate [of hop_length audio frame_length threshold fmin fmax] by simp
  from a b c d e show ?thesis by (intro conjI)
qed

theorem invalid_input_behaviour_witness:
  "mpm_pitch_detection [] 0 2 = Inl OverflowError
   \<and> [1 :: real, 2] \<noteq> []
   \<and> length [1 :: real, 2] = 2
   \<and> mpm_pitch_detection [1, 2] 0 2 = Inr (None, None)
   \<and> detect_pitch_mpm [1, 2, 3] 0 2 0 2 50 2000 = Inl ZeroDivisionError
   \<and> (1 :: int) \<noteq> 0
   \<and> (0 :: int) < 1 + (int (length [1 :: real, 2, 3]) - 2) div 1
   \<and> detect_pitch_mpm [1, 2, 3] 0 2 1 2 50 2000 = Inl ZeroDivisionError"
proof -
  have "length [1 :: real, 2] = 1 \<or> length [1 :: real, 2] = 2" by simp
  moreover have "(1 :: int) \<noteq> 0 \<and> (0 :: int) < 1 + (int (length [1 :: real, 2, 3]) - 2) div 1"
    by simp
  ultimately show ?thesis
    using invalid_input_behaviour [where sample_rate = 0 and threshold = 2
        and audio_buffer = "[1, 2]" and audio = "[1, 2, 3]" and frame_length = 2
        and fmin = 50 and fmax = 2000 and hop_length = 1]
    by simp
qed

text \<open>
  Claim C9, as stated, fails: the source validates no input. A frame of length 2, a
  sample rate of 0, a threshold of 2 and a frame length of -1 are all taken into the
  normal computation and give a normal result.
\<close>

theorem invalid_input_counterexample:
  "length [1 :: real, 2] < 3
   \<and> mpm_pitch_detection [1, 2] 48000 (1 / 10) = Inr (None, None)
   \<and> \<not> (0 :: real) < 0
   \<and> mpm_pitch_detection [1, 0, 1, 0] 0 (1 / 10) = Inr (Some 0, Some 1)
   \<and> \<not> (2 :: real) < 1
   \<and> mpm_pitch_detection [1, 0, 1, 0] 48000 2 = Inr (None, None)
   \<and> \<not> (0 :: int) < - 1
   \<and> detect_pitch_mpm [1, 0, 1, 0, 1] 48000 (- 1) 100 (1 / 10) 50 30000
        = Inr ([Some 24000], [Some 1], [0])"
proof -
  have a: "mpm_pitch_detection [1, 2] 48000 (1 / 10) = Inr (None, None)"
    by (rule mpm_short) simp
  have b: "mpm_pitch_detection [1, 0, 1, 0] 0 (1 / 10) = Inr (Some 0, Some 1)"
    using mpm_1010 [of "1 / 10" 0] by simp
  have c: "mpm_pitch_detection [1, 0, 1, 0] 48000 2 = Inr (None, None)"
    by (rule mpm_1010_none) simp
  have sl: "py_slice [1, 0, 1, 0, 1 :: real] 0 (- 1) = [1, 0, 1, 0]"
    by (simp add: py_slice_def)
  have m: "mpm_pitch_detection [1, 0, 1, 0] 48000 (1 / 10) = Inr (Some 24000, Some 1)"
    using mpm_1010 [of "1 / 10" 48000] by simp
  have d: "detect_pitch_mpm [1, 0, 1, 0, 1] 48000 (- 1) 100 (1 / 10) 50 30000
        = Inr ([Some 24000], [Some 1], [0])"
    by (simp add: detect_pitch_mpm_def sl m)
  from a b c d show ?thesis by simp
qed

subsection \<open>Frame tracker\<close>

lemma py_slice_frame:
  assumes "0 \<le> start" "0 < L" "start + L \<le> int (length xs)"
  shows "length (py_slice xs start (start + L)) = nat L"
  using assms by (auto simp: py_slice_def Let_def min_def)

lemma frames_loop_ok:
  fixes hop_length frame_length :: int
  assumes sr: "sample_rate \<noteq> 0"
    and ne: "\<And>i. i \<in> set idx \<Longrightarrow>
               py_slice audio (int i * hop_length) (int i * hop_length + frame_length) \<noteq> []"
  shows "\<exists>p c t. frames_loop audio sample_rate frame_length hop_length threshold fmin fmax idx (P, C, T)
                    = Inr (p, c, t)
           \<and> length p = length P \<and> length c = length C \<and> length t = length T
           \<and> (\<forall>k\<in>set idx. k < length T \<longrightarrow> t ! k = real_of_int (int k * hop_length) / sample_rate)
           \<and> (\<forall>k. k \<notin> set idx \<longrightarrow> t ! k = T ! k)"
  using ne
proof (induction idx arbitrary: P C T)
  case Nil
  show ?case by simp
next
  case (Cons i rest)
  let ?frame = "py_slice audio (int i * hop_length) (int i * hop_length + frame_length)"
  let ?T = "T[i := real_of_int (int i * hop_length) / sample_rate]"
  have "?frame \<noteq> []" using Cons.prems by simp
  then obtain freq clarity where m: "mpm_pitch_detection ?frame sample_rate threshold = Inr (freq, clarity)"
    using mpm_nonempty by (metis surj_pair)
  have rest: "\<And>j. j \<in> set rest \<Longrightarrow>
               py_slice audio (int j * hop_length) (int j * hop_length + frame_length) \<noteq> []"
    using Cons.prems by simp
  have eq: "frames_loop audio sample_rate frame_length hop_length threshold fmin fmax
          (i # rest) (P, C, T)
        = (case freq of
             Some f \<Rightarrow>
               if fmin \<le> f \<and> f \<le> fmax
               then frames_loop audio sample_rate frame_length hop_length threshold fmin fmax
                      rest (P[i := Some f], C[i := clarity], ?T)
               else frames_loop audio sample_rate frame_length hop_length threshold fmin fmax
                      rest (P, C, ?T)
           | None \<Rightarrow>
               frames_loop audio sample_rate frame_length hop_length threshold fmin fmax
                 rest (P, C, ?T))"
    using sr m by (simp add: Let_def)
  have "\<exists>P' C'. frames_loop audio sample_rate frame_length hop_length threshold fmin fmax
          (i # rest) (P, C, T)
        = frames_loop audio sample_rate frame_length hop_length threshold fmin fmax rest (P', C', ?T)
        \<and> length P' = length P \<and> length C' = length C"
  proof (cases freq)
    case None
    then show ?thesis unfolding eq by auto
  next
    case (Some f)
    show ?thesis
    proof (cases "fmin \<le> f \<and> f \<le> fmax")
      case True
      then show ?thesis unfolding eq Some option.case
        by (intro exI [of _ "P[i := Some f]"] exI [of _ "C[i := clarity]"]) simp
    next
      case False
      then show ?thesis unfolding eq Some by auto
    qed
  qed
  then obtain P' C' where step: "frames_loop audio sample_rate frame_length hop_length threshold fmin fmax
          (i # rest) (P, C, T)
        = frames_loop audio sample_rate frame_length hop_length threshold fmin fmax rest (P', C', ?T)"
      and len: "length P' = length P" "length C' = length C"
    by blast
  from Cons.IH [OF rest, of P' C' ?T] obtain p c t where
    r: "frames_loop audio sample_rate frame_length hop_length threshold fmin fmax rest (P', C', ?T)
          = Inr (p, c, t)"
    and l: "length p = length P'" "length c = length C'" "length t = length ?T"
    and v: "\<forall>k\<in>set rest. k < length ?T \<longrightarrow> t ! k = real_of_int (int k * hop_length) / sample_rate"
    and u: "\<forall>k. k \<notin> set rest \<longrightarrow> t ! k = ?T ! k"
    by blast
  have "\<forall>k\<in>set (i # rest). k < length T \<longrightarrow> t ! k = real_of_int (int k * hop_length) / sample_rate"
  proof (intro ballI impI)
    fix k assume k: "k \<in> set (i # rest)" "k < length T"
    show "t ! k = real_of_int (int k * hop_length) / sample_rate"
    proof (cases "k \<in> set rest")
      case True
      with v k show ?thesis by simp
    next
      case False
      with k have "k = i" by simp
      with u False k show ?thesis by simp
    qed
  qed
  moreover have "\<forall>k. k \<notin> set (i # rest) \<longrightarrow> t ! k = T ! k"
    using u by simp
  ultimately show ?case
    unfolding step r using l len by simp
qed

lemma frame_in_range:
  fixes L H n :: int
  assumes H: "0 < H" and k: "int k < 1 + (n - L) div H"
  shows "int k * H + L \<le> n"
proof -
  have "int k \<le> (n - L) div H" using k by simp
  then have "int k * H \<le> (n - L) div H * H" using H by (simp add: mult_right_mono)
  also have "\<dots> \<le> n - L"
  proof -
    have "(n - L) div H * H + (n - L) mod H = n - L" by simp
    moreover have "0 \<le> (n - L) mod H" using H by simp
    ultimately show ?thesis by linarith
  qed
  finally show ?thesis by simp
qed


text \<open>
  For a positive frame length, a positive hop length and a non-zero sample rate, a call
  whose frame count \<open>1 + floor((len(signal) - L) / H)\<close> is not negative returns three
  arrays of exactly that length, with the timestamp \<open>k * H / sample_rate\<close> at index \<open>k\<close>.
\<close>

lemma detect_pitch_mpm_frames:
  assumes H: "0 < hop_length" and L: "0 < frame_length" and sr: "sample_rate \<noteq> 0"
    and cnt: "0 \<le> 1 + (int (length audio) - frame_length) div hop_length"
  shows "\<exists>pitches clarities tms.
           detect_pitch_mpm audio sample_rate frame_length hop_length threshold fmin fmax
             = Inr (pitches, clarities, tms)
           \<and> int (length pitches) = 1 + (int (length audio) - frame_length) div hop_length
           \<and> length clarities = length pitches \<and> length tms = length pitches
           \<and> (\<forall>k<length tms. tms ! k = real_of_int (int k * hop_length) / sample_rate)"
proof -
  define num where "num = nat (1 + (int (length audio) - frame_length) div hop_length)"
  have num: "int num = 1 + (int (length audio) - frame_length) div hop_length"
    using cnt by (simp add: num_def)
  have ne: "py_slice audio (int i * hop_length) (int i * hop_length + frame_length) \<noteq> []"
    if "i \<in> set [0..<num]" for i
  proof -
    from that have "int i < 1 + (int (length audio) - frame_length) div hop_length"
      using num by simp
    then have "int i * hop_length + frame_length \<le> int (length audio)"
      by (rule frame_in_range [OF H])
    moreover have "0 \<le> int i * hop_length" using H by simp
    ultimately have "length (py_slice audio (int i * hop_length) (int i * hop_length + frame_length))
                     = nat frame_length"
      using L by (intro py_slice_frame)
    then show ?thesis using L by auto
  qed
  from frames_loop_ok [OF sr ne, of "[0..<num]" threshold fmin fmax
      "replicate num None" "replicate num None" "replicate num 0"]
  obtain p c t where
    r: "frames_loop audio sample_rate frame_length hop_length threshold fmin fmax [0..<num]
          (replicate num None, replicate num None, replicate num 0) = Inr (p, c, t)"
    and l: "length p = num" "length c = num" "length t = num"
    and v: "\<forall>k\<in>set [0..<num]. k < num \<longrightarrow> t ! k = real_of_int (int k * hop_length) / sample_rate"
    by auto
  have "detect_pitch_mpm audio sample_rate frame_length hop_length threshold fmin fmax = Inr (p, c, t)"
    using H cnt r by (simp add: detect_pitch_mpm_def Let_def num_def)
  moreover have "\<forall>k<length t. t ! k = real_of_int (int k * hop_length) / sample_rate"
    using v l by simp
  ultimately show ?thesis using l num by auto
qed

text \<open>
  Claim C7 says that the tracker produces \<open>1 + floor((len(signal) - L) / H)\<close> frames and
  an empty series, not an error, when that count is \<open>\<le> 0\<close>, in particular whenever
  \<open>len(signal) < L\<close>. The source allocates its arrays with the count as it is: a signal
  of 1000 samples with \<open>L = 2048\<close> and \<open>H = 512\<close> gives the count \<open>-2\<close> and the call raises
  \<open>ValueError\<close>.
\<close>

theorem short_signal_raises:
  "int (length (replicate 1000 (0 :: real))) < 2048
   \<and> detect_pitch_mpm (replicate 1000 0) 48000 2048 512 (1 / 10) 50 2000 = Inl ValueError"
proof -
  have "detect_pitch_mpm (replicate 1000 0) 48000 2048 512 (1 / 10) 50 2000 = Inl ValueError"
    by (rule detect_negative_count) simp_all
  then show ?thesis by simp
qed

subsection \<open>Dominant pitch aggregator\<close>

lemma binsearch_left_takeWhile:
  assumes "sorted a"
    and "lo \<le> hi" and "hi \<le> length a"
    and "\<And>i. i < lo \<Longrightarrow> a ! i < v"
    and "\<And>i. hi \<le> i \<Longrightarrow> i < length a \<Longrightarrow> v \<le> a ! i"
  shows "binsearch_left a v lo hi = length (takeWhile (\<lambda>c. c < v) a)"
  using assms
proof (induction a v lo hi rule: binsearch_left.induct)
  case (1 a v lo hi)
  show ?case
  proof (cases "lo < hi")
    case False
    with "1.prems" have eq: "lo = hi" by simp
    have "takeWhile (\<lambda>c. c < v) a = take lo a"
    proof (rule takeWhile_eq_take_P_nth)
      fix i assume "i < lo" "i < length a"
      then show "a ! i < v" using "1.prems"(4) by simp
    next
      assume "lo < length a"
      then have "v \<le> a ! lo" using "1.prems"(5) [of lo] eq by simp
      then show "\<not> a ! lo < v" by simp
    qed
    then have "length (takeWhile (\<lambda>c. c < v) a) = lo"
      using "1.prems"(3) eq by simp
    then show ?thesis using False by (subst binsearch_left.simps) simp
  next
    case True
    define mid where "mid = lo + (hi - lo) div 2"
    have mid: "lo \<le> mid" "mid < hi" using True by (simp_all add: mid_def)
    show ?thesis
    proof (cases "a ! mid < v")
      case lt: True
      have "binsearch_left a v (mid + 1) hi = length (takeWhile (\<lambda>c. c < v) a)"
      proof (rule "1.IH"(1) [OF True mid_def lt "1.prems"(1)])
        show "mid + 1 \<le> hi" using mid by simp
        show "hi \<le> length a" by (rule "1.prems"(3))
        show "a ! i < v" if "i < mid + 1" for i
        proof -
          have "a ! i \<le> a ! mid"
            using "1.prems"(1,3) mid that by (simp add: sorted_iff_nth_mono)
          with lt show ?thesis by simp
        qed
        show "v \<le> a ! i" if "hi \<le> i" "i < length a" for i
          using that by (rule "1.prems"(5))
      qed
      then show ?thesis
        using True lt by (subst binsearch_left.simps) (simp add: mid_def Let_def)
    next
      case ge: False
      have "binsearch_left a v lo mid = length (takeWhile (\<lambda>c. c < v) a)"
      proof (rule "1.IH"(2) [OF True mid_def ge "1.prems"(1)])
        show "lo \<le> mid" using mid by simp
        show "mid \<le> length a" using mid "1.prems"(3) by simp
        show "a ! i < v" if "i < lo" for i using that by (rule "1.prems"(4))
        show "v \<le> a ! i" if "mid \<le> i" "i < length a" for i
        proof -
          have "a ! mid \<le> a ! i"
            using "1.prems"(1) that by (simp add: sorted_iff_nth_mono)
          with ge show ?thesis by simp
        qed
      qed
      then show ?thesis
        using True ge by (subst binsearch_left.simps) (simp add: mid_def Let_def)
    qed
  qed
qed

lemma searchsorted_sorted:
  "sorted a \<Longrightarrow> searchsorted a v = length (takeWhile (\<lambda>c. c < v) a)"
  unfolding searchsorted_def by (rule binsearch_left_takeWhile) simp_all


lemma cumsum_from_take:
  "k < length ws \<Longrightarrow> cumsum_from acc ws ! k = acc + sum_list (take (Suc k) ws)"
proof (induction ws arbitrary: acc k)
  case Nil
  then show ?case by simp
next
  case (Cons w ws)
  then show ?case by (cases k) simp_all
qed

lemma cumsum_map:
  "cumsum ws = map (\<lambda>k. sum_list (take (Suc k) ws)) [0..<length ws]"
  by (rule nth_equalityI) (simp_all add: cumsum_def cumsum_from_length cumsum_from_take)

lemma cumsum_from_sorted:
  assumes "\<forall>w\<in>set ws. 0 \<le> w"
  shows "sorted (cumsum_from acc ws) \<and> (\<forall>c\<in>set (cumsum_from acc ws). acc \<le> c)"
  using assms
proof (induction ws arbitrary: acc)
  case Nil
  show ?case by simp
next
  case (Cons w ws)
  then have w: "0 \<le> w" and ws: "\<forall>w\<in>set ws. 0 \<le> w" by simp_all
  from Cons.IH [OF ws, of "acc + w"] have s: "sorted (cumsum_from (acc + w) ws)"
    and b: "\<forall>c\<in>set (cumsum_from (acc + w) ws). acc + w \<le> c" by simp_all
  from b w have "\<forall>c\<in>set (cumsum_from (acc + w) ws). acc \<le> c" by fastforce
  with s b w show ?case by simp
qed

lemma cumsum_sorted: "\<forall>w\<in>set ws. 0 \<le> w \<Longrightarrow> sorted (cumsum ws)"
  by (simp add: cumsum_def cumsum_from_sorted)

lemma cumsum_last: "ws \<noteq> [] \<Longrightarrow> last (cumsum ws) = sum_list ws"
proof -
  assume ne: "ws \<noteq> []"
  have len: "length (cumsum ws) = length ws"
    by (simp add: cumsum_def cumsum_from_length)
  have "cumsum ws \<noteq> []" using ne len by (metis length_0_conv)
  then have "last (cumsum ws) = cumsum ws ! (length ws - 1)"
    using len by (simp add: last_conv_nth)
  also have "\<dots> = sum_list (take (Suc (length ws - 1)) ws)"
    using ne by (simp add: cumsum_def cumsum_from_take)
  finally show ?thesis using ne by simp
qed

lemma insort_key_map_commute:
  assumes "g (h x) = f x" and "\<forall>y\<in>set ys. g (h y) = f y"
  shows "map h (insort_key f x ys) = insort_key g (h x) (map h ys)"
  using assms by (induction ys) simp_all

lemma sort_key_map_commute:
  assumes "\<forall>y\<in>set ys. g (h y) = f y"
  shows "map h (sort_key f ys) = sort_key g (map h ys)"
  using assms
proof (induction ys)
  case Nil
  show ?case by simp
next
  case (Cons y ys)
  then have "map h (sort_key f ys) = sort_key g (map h ys)" by simp
  moreover have "map h (insort_key f y (sort_key f ys)) = insort_key g (h y) (map h (sort_key f ys))"
    by (rule insort_key_map_commute) (use Cons.prems in simp_all)
  ultimately show ?case by (simp add: sort_key_def)
qed


lemma bool_index_pairs:
  assumes "length cs = length pitches"
  shows "bool_index pitches
           (map2 (\<and>) (map (\<lambda>p. p \<noteq> None) pitches)
              (map (\<lambda>c. case c of None \<Rightarrow> False | Some v \<Rightarrow> v \<ge> mc) cs))
         = map fst (valid_pairs pitches cs mc)
       \<and> bool_index cs
           (map2 (\<and>) (map (\<lambda>p. p \<noteq> None) pitches)
              (map (\<lambda>c. case c of None \<Rightarrow> False | Some v \<Rightarrow> v \<ge> mc) cs))
         = map snd (valid_pairs pitches cs mc)"
  using assms
proof (induction cs pitches rule: list_induct2)
  case Nil
  show ?case by (simp add: bool_index_def valid_pairs_def)
next
  case (Cons c cs p pitches)
  then show ?case
    by (cases p; cases c) (simp_all add: bool_index_def valid_pairs_def)
qed

lemma bool_index_freqs:
  "bool_index pitches (map (\<lambda>p. p \<noteq> None) pitches) = valid_freqs pitches"
proof (induction pitches)
  case Nil
  show ?case by (simp add: bool_index_def valid_freqs_def)
next
  case (Cons p pitches)
  then show ?case
    by (cases p) (simp_all add: bool_index_def valid_freqs_def)
qed

lemma argsort_pairs:
  assumes len: "length vp = length vc"
  shows "map (\<lambda>i. vp ! i) (argsort vp) = map fst (sort_key fst (zip vp vc))"
    and "map (\<lambda>i. vc ! i) (argsort vp) = map snd (sort_key fst (zip vp vc))"
proof -
  let ?n = "length vp"
  let ?S = "sort_key fst (zip vp [0..<?n])"
  let ?h = "\<lambda>(v, i). (v, vc ! i)"
  have ent: "vp ! i = v \<and> i < ?n" if "(v, i) \<in> set ?S" for v i
  proof -
    from that have "(v, i) \<in> set (zip vp [0..<?n])" by simp
    then obtain k where "k < ?n" "vp ! k = v" "[0..<?n] ! k = i"
      by (auto simp: in_set_zip)
    then show ?thesis by simp
  qed
  have "map ?h (zip vp [0..<?n]) = zip vp vc"
    using len by (intro nth_equalityI) simp_all
  moreover have "map ?h ?S = sort_key fst (map ?h (zip vp [0..<?n]))"
    by (rule sort_key_map_commute) auto
  ultimately have hS: "map ?h ?S = sort_key fst (zip vp vc)" by simp
  have "map (\<lambda>i. vp ! i) (argsort vp) = map fst (map ?h ?S)"
    unfolding argsort_def map_map by (rule map_cong [OF refl]) (use ent in auto)
  then show "map (\<lambda>i. vp ! i) (argsort vp) = map fst (sort_key fst (zip vp vc))"
    unfolding hS .
  have "map (\<lambda>i. vc ! i) (argsort vp) = map snd (map ?h ?S)"
    unfolding argsort_def map_map by (rule map_cong [OF refl]) auto
  then show "map (\<lambda>i. vc ! i) (argsort vp) = map snd (sort_key fst (zip vp vc))"
    unfolding hS .
qed


lemma weighted_median_code:
  assumes ne: "vps \<noteq> []" and nonneg: "\<forall>(f, w)\<in>set vps. 0 \<le> w"
  shows "searchsorted (cumsum (map snd (sort_key fst vps)))
           (last (cumsum (map snd (sort_key fst vps))) / 2) < length vps"
    and "map fst (sort_key fst vps)
           ! searchsorted (cumsum (map snd (sort_key fst vps)))
               (last (cumsum (map snd (sort_key fst vps))) / 2)
         = weighted_median vps"
proof -
  define sp where "sp = sort_key fst vps"
  define sw where "sw = map snd sp"
  define half where "half = sum_list sw / 2"
  let ?P = "\<lambda>j. sum_list (take (Suc j) sw) < half"
  have len: "length sw = length vps" "length sp = length vps" by (simp_all add: sw_def sp_def)
  have swne: "sw \<noteq> []" using ne len by (metis length_0_conv)
  have pos: "\<forall>w\<in>set sw. 0 \<le> w" using nonneg by (auto simp: sw_def sp_def)
  have srt: "sorted (cumsum sw)" using pos by (rule cumsum_sorted)
  have lst: "last (cumsum sw) = sum_list sw" using swne by (rule cumsum_last)
  have clen: "length (cumsum sw) = length sw" by (simp add: cumsum_def cumsum_from_length)
  have cne: "cumsum sw \<noteq> []" using swne clen by (metis length_0_conv)
  have k: "searchsorted (cumsum sw) (last (cumsum sw) / 2)
           = length (takeWhile (\<lambda>c. c < half) (cumsum sw))"
    unfolding lst half_def [symmetric] using srt by (rule searchsorted_sorted)
  have "0 \<le> sum_list sw" using pos by (simp add: sum_list_nonneg)
  then have "\<not> last (cumsum sw) < half" unfolding lst half_def by simp
  moreover have "last (cumsum sw) \<in> set (cumsum sw)" using cne by simp
  ultimately have "takeWhile (\<lambda>c. c < half) (cumsum sw) \<noteq> cumsum sw"
    by (metis takeWhile_eq_all_conv)
  then have "length (takeWhile (\<lambda>c. c < half) (cumsum sw)) \<noteq> length (cumsum sw)"
    by (metis takeWhile_eq_take take_all_iff le_refl)
  then have lt: "length (takeWhile (\<lambda>c. c < half) (cumsum sw)) < length sw"
    using length_takeWhile_le [of "\<lambda>c. c < half" "cumsum sw"] clen by simp
  have k2: "length (takeWhile (\<lambda>c. c < half) (cumsum sw)) = length (takeWhile ?P [0..<length sw])"
    by (subst cumsum_map) (simp add: takeWhile_map comp_def)
  show "searchsorted (cumsum (map snd (sort_key fst vps)))
           (last (cumsum (map snd (sort_key fst vps))) / 2) < length vps"
    using k lt len by (simp add: sw_def sp_def)
  have "map fst sp ! length (takeWhile ?P [0..<length sw])
        = fst (sp ! length (takeWhile ?P [0..<length sw]))"
    using lt k2 len by simp
  also have "\<dots> = weighted_median vps"
    by (simp add: weighted_median_def Let_def sp_def sw_def half_def)
  finally show "map fst (sort_key fst vps)
           ! searchsorted (cumsum (map snd (sort_key fst vps)))
               (last (cumsum (map snd (sort_key fst vps))) / 2)
         = weighted_median vps"
    using k k2 by (simp add: sw_def sp_def)
qed


lemma set_map_filter_iff:
  "y \<in> set (List.map_filter g xs) \<longleftrightarrow> (\<exists>x\<in>set xs. g x = Some y)"
  by (induction xs) (auto split: option.splits)

lemma valid_pairs_set:
  assumes "(f, w) \<in> set (valid_pairs pitches cs mc)"
  shows "Some f \<in> set pitches" and "Some w \<in> set cs" and "mc \<le> w"
proof -
  from assms obtain p c where pc: "(p, c) \<in> set (zip pitches cs)"
    and g: "(case p of None \<Rightarrow> None
             | Some f' \<Rightarrow> (case c of None \<Rightarrow> None
                           | Some w' \<Rightarrow> if w' \<ge> mc then Some (f', w') else None)) = Some (f, w)"
    by (auto simp: valid_pairs_def set_map_filter_iff)
  from g have "p = Some f \<and> c = Some w \<and> mc \<le> w"
    by (auto split: option.splits if_splits)
  with pc show "Some f \<in> set pitches" and "Some w \<in> set cs" and "mc \<le> w"
    by (auto dest: set_zip_leftD set_zip_rightD)
qed

lemma valid_freqs_set: "set (valid_freqs pitches) = {f. Some f \<in> set pitches}"
  by (auto simp: valid_freqs_def set_map_filter_iff)

lemma dominant_with_clarities:
  assumes len: "length cs = length pitches"
    and nonneg: "0 \<le> min_clarity \<or> (\<forall>w. Some w \<in> set cs \<longrightarrow> 0 \<le> w)"
  shows "get_dominant_pitch_mpm pitches (Some cs) min_clarity =
           (if valid_pairs pitches cs min_clarity = [] then Inr None
            else Inr (Some (weighted_median (valid_pairs pitches cs min_clarity))))"
    and "valid_pairs pitches cs min_clarity \<noteq> [] \<Longrightarrow>
           Some (weighted_median (valid_pairs pitches cs min_clarity)) \<in> set pitches"
proof -
  let ?VP = "valid_pairs pitches cs min_clarity"
  let ?mask = "map2 (\<and>) (map (\<lambda>p. p \<noteq> None) pitches)
              (map (\<lambda>c. case c of None \<Rightarrow> False | Some v \<Rightarrow> v \<ge> min_clarity) cs)"
  have vm: "valid_mask pitches (Some cs) min_clarity = Inr ?mask"
    using len by (simp add: valid_mask_def Let_def)
  have lm: "length ?mask = length cs" using len by simp
  have vp: "bool_index pitches ?mask = map fst ?VP" and vc: "bool_index cs ?mask = map snd ?VP"
    using bool_index_pairs [OF len, of min_clarity] by simp_all
  have w0: "\<forall>(f, w)\<in>set ?VP. 0 \<le> w"
  proof (clarify)
    fix f w assume "(f, w) \<in> set ?VP"
    then have "Some w \<in> set cs" "min_clarity \<le> w" by (rule valid_pairs_set)+
    with nonneg show "0 \<le> w" by auto
  qed
  have srt: "map (\<lambda>i. map fst ?VP ! i) (argsort (map fst ?VP)) = map fst (sort_key fst ?VP)"
       "map (\<lambda>i. map snd ?VP ! i) (argsort (map fst ?VP)) = map snd (sort_key fst ?VP)"
    using argsort_pairs [of "map fst ?VP" "map snd ?VP"] by (simp_all add: zip_map_fst_snd)
  show main: "get_dominant_pitch_mpm pitches (Some cs) min_clarity =
           (if ?VP = [] then Inr None else Inr (Some (weighted_median ?VP)))"
  proof (cases "?VP = []")
    case True
    then show ?thesis
      unfolding get_dominant_pitch_mpm_def vm sum.case Let_def vp by simp
  next
    case False
    note wm = weighted_median_code [OF False w0]
    show ?thesis
      unfolding get_dominant_pitch_mpm_def vm sum.case Let_def vp vc lm option.case srt
      using False wm by simp
  qed
  show "Some (weighted_median ?VP) \<in> set pitches" if ne: "?VP \<noteq> []"
  proof -
    note wm = weighted_median_code [OF ne w0]
    have "map fst (sort_key fst ?VP)
           ! searchsorted (cumsum (map snd (sort_key fst ?VP)))
               (last (cumsum (map snd (sort_key fst ?VP))) / 2)
          \<in> set (map fst (sort_key fst ?VP))"
      by (rule nth_mem) (use wm(1) in simp)
    then have "weighted_median ?VP \<in> fst ` set ?VP" unfolding wm(2) by simp
    then obtain w where "(weighted_median ?VP, w) \<in> set ?VP" by auto
    then show ?thesis by (rule valid_pairs_set)
  qed
qed

lemma dominant_without_clarities:
  "get_dominant_pitch_mpm pitches None min_clarity =
     (if valid_freqs pitches = [] then Inr None else Inr (Some (median (valid_freqs pitches))))"
  unfolding get_dominant_pitch_mpm_def valid_mask_def Let_def option.case sum.case bool_index_freqs
  by simp


text \<open>
  Claim C8. For every pitch time series (frequencies and clarities of equal length,
  clarities not negative, as the data model has them; or any clarities with a minimum
  clarity that is not negative) and minimum clarity threshold, \<open>get_dominant_pitch_mpm\<close>
  returns "undetermined" (\<open>None\<close>) exactly when the valid subset is empty (entries with a
  present frequency and, when clarities are supplied, a present clarity \<open>\<ge>\<close> the minimum).
  When the subset is not empty and clarities are supplied, it returns the frequency at
  the first position, after sorting the valid pairs by frequency ascending, whose
  cumulative clarity weight is \<open>\<ge>\<close> half the total weight, and this result is one of the
  input frequencies. Without clarities it returns the median of the present frequencies.
\<close>

theorem dominant_pitch_spec:
  assumes "length cs = length pitches"
    and "0 \<le> min_clarity \<or> (\<forall>w. Some w \<in> set cs \<longrightarrow> 0 \<le> w)"
  shows "get_dominant_pitch_mpm pitches (Some cs) min_clarity =
           (if valid_pairs pitches cs min_clarity = [] then Inr None
            else Inr (Some (weighted_median (valid_pairs pitches cs min_clarity))))
       \<and> (valid_pairs pitches cs min_clarity \<noteq> [] \<longrightarrow>
            Some (weighted_median (valid_pairs pitches cs min_clarity)) \<in> set pitches)
       \<and> get_dominant_pitch_mpm pitches None min_clarity =
           (if valid_freqs pitches = [] then Inr None
            else Inr (Some (median (valid_freqs pitches))))"
  using dominant_with_clarities [OF assms] dominant_without_clarities [of pitches min_clarity]
  by simp

theorem dominant_pitch_spec_witness:
  "length [Some (9 / 10), Some (9 / 10), Some (3 / 5), Some (3 / 10 :: real)]
     = length [Some 440, None, Some 220, Some (330 :: real)]
   \<and> (0 :: real) \<le> 1 / 2
   \<and> get_dominant_pitch_mpm [Some 440, None, Some 220, Some 330]
         (Some [Some (9 / 10), Some (9 / 10), Some (3 / 5), Some (3 / 10)]) (1 / 2)
       = Inr (Some 440)
   \<and> get_dominant_pitch_mpm [None, Some 100] (Some [Some (9 / 10), Some (1 / 10)]) (1 / 2)
       = Inr None
   \<and> get_dominant_pitch_mpm [Some 440, None, Some 220, Some 330] None (1 / 2)
       = Inr (Some 330)"
proof -
  let ?p = "[Some 440, None, Some 220, Some (330 :: real)]"
  let ?c = "[Some (9 / 10), Some (9 / 10), Some (3 / 5), Some (3 / 10 :: real)]"
  have l: "length ?c = length ?p" by simp
  have h: "(0 :: real) \<le> 1 / 2 \<or> (\<forall>w. Some w \<in> set ?c \<longrightarrow> 0 \<le> w)" by simp
  have vp: "valid_pairs ?p ?c (1 / 2) = [(440, 9 / 10), (220, 3 / 5)]"
    by (simp add: valid_pairs_def)
  have wm: "weighted_median [(440, 9 / 10), (220, 3 / 5)] = 440"
    by (simp add: weighted_median_def Let_def upt_rec)
  have vf: "valid_freqs ?p = [440, 220, 330]" by (simp add: valid_freqs_def)
  have md: "median [440, 220, 330] = 330"
    by (simp add: median_def Let_def numeral_3_eq_3)
  have a: "get_dominant_pitch_mpm ?p (Some ?c) (1 / 2) = Inr (Some 440)"
    using dominant_pitch_spec [OF l h] unfolding vp wm by simp
  have c: "get_dominant_pitch_mpm ?p None (1 / 2) = Inr (Some 330)"
    using dominant_pitch_spec [OF l h] unfolding vf md by simp
  let ?p2 = "[None, Some (100 :: real)]"
  let ?c2 = "[Some (9 / 10), Some (1 / 10 :: real)]"
  have l2: "length ?c2 = length ?p2" by simp
  have h2: "(0 :: real) \<le> 1 / 2 \<or> (\<forall>w. Some w \<in> set ?c2 \<longrightarrow> 0 \<le> w)" by simp
  have vp2: "valid_pairs ?p2 ?c2 (1 / 2) = []" by (simp add: valid_pairs_def)
  have b: "get_dominant_pitch_mpm ?p2 (Some ?c2) (1 / 2) = Inr None"
    using dominant_pitch_spec [OF l2 h2] unfolding vp2 by simp
  from a b c show ?thesis by simp
qed

text \<open>
  Outside the data model the weights can be negative: with a negative minimum clarity and
  a negative clarity the cumulative sums end below half their total, the search returns
  the length of the array and the indexing raises.
\<close>

lemma dominant_negative_weight_raises:
  "get_dominant_pitch_mpm [Some 440] (Some [Some (- (1 / 2))]) (- 1) = Inl IndexError"
proof -
  have vm: "valid_mask [Some 440] (Some [Some (- (1 / 2))]) (- 1) = Inr [True]"
    by (simp add: valid_mask_def)
  have b: "binsearch_left [- (1 / 2)] (- (1 / 4)) 0 (Suc 0) = Suc 0"
    by (subst binsearch_left.simps, simp, subst binsearch_left.simps, simp)
  show ?thesis
    unfolding get_dominant_pitch_mpm_def vm
    by (simp add: bool_index_def argsort_def cumsum_def searchsorted_def b)
qed

end
